theory Spec2Isabelle
  imports
    Main
    "HOL-Library.Extended_Nat"
    "HOL-Library.Multiset"
    "HOL-Library.Option_ord"
    "HOL-Library.Product_Lexorder"
begin

section \<open>The capture and transcription pipeline of terminal_app/audio.py\<close>

text \<open>
  The module runs several threads over one \<open>OverlapAudioManager\<close>: the caller of
  \<open>start\<close>, \<open>pause\<close>, \<open>resume\<close>, \<open>stop\<close> and \<open>cancel\<close>; the scheduler
  (\<open>_schedule\<close>); one \<open>RecordingSegment\<close> and one watcher (\<open>_watch_segment\<close>) for each
  segment; the transcriber (\<open>_transcriber_loop\<close>). The embedding keeps the manager's
  fields in a record and turns every stretch of code that a thread runs between two
  blocking calls into one function on that record. A schedule is a list of such
  actions; \<open>step\<close> says whether an action can run in a state and what it does.

  What is abstracted:
  \<^item> time. \<open>time.time()\<close> readings are natural numbers handed to the model by the
    schedule, \<open>float('inf')\<close> is \<open>\<infinity>\<close> of \<open>enat\<close>; the waits (\<open>wait(segment_gap)\<close>,
    \<open>max_duration\<close>, the sleeps between retries) only decide when an action runs,
    which the schedule decides here;
  \<^item> the timeouts of \<open>join\<close>. A join is modelled as returning when the joined thread
    has ended; the runs in which a timeout fires first are not in the model;
  \<^item> the audio itself. A segment counts the blocks it has read; its artifact is named
    by the segment's index (\<open>mkstemp\<close> picks a fresh name), and \<open>files\<close> is the set
    of artifacts on storage;
  \<^item> the transcription client (\<open>llm_client.py\<close> is not among the sources): it is a
    parameter, \<open>llm c p n\<close> being the outcome of the \<open>n\<close>-th call made, on artifact
    \<open>p\<close>;
  \<^item> the amplitude queue, which nothing reads back here, and failures of the file
    system (\<open>mkdir\<close>, \<open>open\<close>, \<open>unlink\<close> are taken to succeed).
  Since a join never times out, at most one transcriber thread runs at a time; the
  model has one slot for it.
\<close>

subsection \<open>Data\<close>

type_synonym path = nat
type_synonym stamp = enat

text \<open>A Python \<open>str\<close>: the list of its code points.\<close>

type_synonym str = "nat list"
type_synonym item = "stamp \<times> path option"

text \<open>The outcome of one \<open>llm.transcribe\<close> call: a value (possibly \<open>None\<close>),
  \<open>GroqRateLimitError\<close>, or any other \<open>Exception\<close>.\<close>

datatype outcome = Returned "str option" | RateLimited | Failed

text \<open>Effects that leave no mark in the manager's fields are logged in a trace.\<close>

datatype event = Transcribe path | Sleep nat | Recorded path | Unlink path

datatype thread = Alive | Finished

text \<open>Where the caller stands inside \<open>_shutdown\<close> or \<open>cancel\<close>: before the join of
  the scheduler, before the join of the transcriber, or outside.\<close>

datatype position = Ready | Shutdown1 | Shutdown2 | Cancel1 | Cancel2

record segment =
  started_at :: nat
  stop_event :: bool
  frames :: nat
  file_path :: "path option"
  ended :: bool

record config =
  llm :: "path \<Rightarrow> nat \<Rightarrow> outcome"
  max_retries :: int

record manager =
  stop_all :: bool
  scheduler :: "thread option"
  active :: "nat list"
  segs :: "nat \<Rightarrow> segment"
  next_seg :: nat
  paused :: bool
  pending :: "item list"
  results :: "(stamp \<times> str) list"
  transcriber :: "thread option"
  inflight :: "(stamp \<times> path) option"
  files :: "path set"
  transcript :: "str option"
  calls :: nat
  trace :: "event list"
  caller :: position

subsection \<open>Strings\<close>

text \<open>A string literal as a \<open>str\<close>.\<close>

definition text_of :: "string \<Rightarrow> str" where
  "text_of = map of_char"

text \<open>\<open>" ".join(texts)\<close>; 32 is the space.\<close>

fun join_sp :: "str list \<Rightarrow> str" where
  "join_sp [] = []"
| "join_sp [x] = x"
| "join_sp (x # y # zs) = x @ [32] @ join_sp (y # zs)"

text \<open>\<open>str.strip()\<close> removes the leading and the trailing white space, which for a
  \<open>str\<close> is what \<open>str.isspace\<close> accepts: U+0009 to U+000D, U+001C to U+001F, U+0020,
  U+0085, U+00A0, U+1680, U+2000 to U+200A, U+2028, U+2029, U+202F, U+205F, U+3000.\<close>

definition is_space :: "nat \<Rightarrow> bool" where
  "is_space cp \<longleftrightarrow>
     cp \<in> {9, 10, 11, 12, 13, 28, 29, 30, 31, 32, 133, 160, 5760,
            8232, 8233, 8239, 8287, 12288}
     \<or> (8192 \<le> cp \<and> cp \<le> 8202)"

definition strip :: "str \<Rightarrow> str" where
  "strip t = rev (dropWhile is_space (rev (dropWhile is_space t)))"

subsection \<open>The transcript file\<close>

definition read_transcript :: "manager \<Rightarrow> str" where
  "read_transcript s = (case transcript s of None \<Rightarrow> [] | Some t \<Rightarrow> t)"

definition clear_transcript :: "manager \<Rightarrow> manager" where
  "clear_transcript s = (if transcript s \<noteq> None then s\<lparr>transcript := None\<rparr> else s)"

definition write_transcript :: "manager \<Rightarrow> manager" where
  "write_transcript s =
     (let sorted_results = sort_key fst (results s);
          texts = map snd sorted_results
      in if texts \<noteq> [] then s\<lparr>transcript := Some (join_sp texts)\<rparr> else s)"

definition unlink :: "path \<Rightarrow> manager \<Rightarrow> manager" where
  "unlink p s = s\<lparr>files := files s - {p}, trace := trace s @ [Unlink p]\<rparr>"

subsection \<open>The transcriber\<close>

text \<open>\<open>_transcribe_single\<close>: the loop over \<open>range(max_retries + 1)\<close>. Each call is
  logged and counted; the value returned is \<open>transcribe(...) or ""\<close>.\<close>

fun transcribe_loop :: "config \<Rightarrow> path \<Rightarrow> nat list \<Rightarrow> manager \<Rightarrow> str \<times> manager" where
  "transcribe_loop c p [] s = ([], s)"
| "transcribe_loop c p (attempt # rest) s =
     (let s1 = s\<lparr>calls := Suc (calls s), trace := trace s @ [Transcribe p]\<rparr> in
      case llm c p (calls s) of
        Returned r \<Rightarrow> (case r of None \<Rightarrow> [] | Some t \<Rightarrow> t, s1)
      | RateLimited \<Rightarrow>
          if int attempt = max_retries c then ([], s1)
          else transcribe_loop c p rest (s1\<lparr>trace := trace s1 @ [Sleep 5]\<rparr>)
      | Failed \<Rightarrow>
          if int attempt = max_retries c then ([], s1)
          else transcribe_loop c p rest (s1\<lparr>trace := trace s1 @ [Sleep 1]\<rparr>))"

definition transcribe_single :: "config \<Rightarrow> path \<Rightarrow> manager \<Rightarrow> str \<times> manager" where
  "transcribe_single c p s = transcribe_loop c p [0 ..< nat (max_retries c + 1)] s"

text \<open>The \<open>if text:\<close> block of \<open>_transcriber_loop\<close>: append the entry, rewrite the
  transcript.\<close>

definition record_result :: "stamp \<Rightarrow> path \<Rightarrow> str \<Rightarrow> manager \<Rightarrow> manager" where
  "record_result start_ts p text s =
     (if text \<noteq> [] then
        write_transcript
          (s\<lparr>results := results s @ [(start_ts, strip text)],
             trace := trace s @ [Recorded p]\<rparr>)
      else s)"

text \<open>\<open>_pending_queue.get\<close>: the least item of the queue, in the order of Python's
  tuples: by key, then by path. (Python cannot compare \<open>None\<close> with a path; the order
  used here puts \<open>None\<close> first, and only matters between items of equal key.) A
  sentinel ends the thread; an artifact becomes the transcriber's current item.\<close>

definition transcriber_get :: "manager \<Rightarrow> manager option" where
  "transcriber_get s =
     (if transcriber s = Some Alive \<and> inflight s = None \<and> pending s \<noteq> [] then
        (let x = Min (set (pending s));
             s1 = s\<lparr>pending := remove1 x (pending s)\<rparr>
         in case snd x of
              None \<Rightarrow> Some (s1\<lparr>transcriber := Some Finished\<rparr>)
            | Some p \<Rightarrow> Some (s1\<lparr>inflight := Some (fst x, p)\<rparr>))
      else None)"

text \<open>The rest of one turn of the loop, for the item taken.\<close>

definition transcriber_body :: "config \<Rightarrow> manager \<Rightarrow> manager option" where
  "transcriber_body c s =
     (case inflight s of
        None \<Rightarrow> None
      | Some (start_ts, p) \<Rightarrow>
          (case transcribe_single c p s of
             (text, s1) \<Rightarrow>
               Some ((unlink p (record_result start_ts p text s1))\<lparr>inflight := None\<rparr>)))"

subsection \<open>Segments\<close>

text \<open>\<open>RecordingSegment.run\<close> after its loop: nothing without frames, else the
  artifact is written.\<close>

definition finish_segment :: "nat \<Rightarrow> manager \<Rightarrow> manager" where
  "finish_segment i s =
     (let g = segs s i in
      if ended g then s
      else if frames g = 0 then s\<lparr>segs := (segs s)(i := g\<lparr>ended := True\<rparr>)\<rparr>
      else s\<lparr>segs := (segs s)(i := g\<lparr>file_path := Some i, ended := True\<rparr>),
             files := insert i (files s)\<rparr>)"

text \<open>\<open>seg.stop_event.set(); seg.join(...)\<close>: the segment sees the event at its
  next loop test and runs to its end.\<close>

definition force_stop :: "nat \<Rightarrow> manager \<Rightarrow> manager" where
  "force_stop i s =
     finish_segment i (s\<lparr>segs := (segs s)(i := (segs s i)\<lparr>stop_event := True\<rparr>)\<rparr>)"

text \<open>\<open>if seg.file_path and seg.file_path.exists(): self._pending_queue.put(...)\<close>.\<close>

definition file_segment :: "nat \<Rightarrow> manager \<Rightarrow> manager" where
  "file_segment i s =
     (case file_path (segs s i) of
        None \<Rightarrow> s
      | Some p \<Rightarrow>
          if p \<in> files s
          then s\<lparr>pending := pending s @ [(enat (started_at (segs s i)), Some p)]\<rparr>
          else s)"

definition stop_active_segments :: "manager \<Rightarrow> manager" where
  "stop_active_segments s =
     fold (\<lambda>i s. file_segment i (force_stop i s)) (active s) (s\<lparr>active := []\<rparr>)"

definition watch_segment :: "nat \<Rightarrow> manager \<Rightarrow> manager" where
  "watch_segment i s =
     (if i \<in> set (active s) then file_segment i (s\<lparr>active := remove1 i (active s)\<rparr>)
      else s)"

text \<open>One turn of \<open>_schedule\<close>: a new segment, started at time \<open>now\<close>.\<close>

definition spawn :: "nat \<Rightarrow> manager \<Rightarrow> manager" where
  "spawn now s =
     s\<lparr>segs := (segs s)(next_seg s :=
            \<lparr>started_at = now, stop_event = False, frames = 0,
             file_path = None, ended = False\<rparr>),
       active := active s @ [next_seg s],
       next_seg := Suc (next_seg s)\<rparr>"

subsection \<open>The session calls\<close>

definition running :: "manager \<Rightarrow> bool" where
  "running s = (scheduler s = Some Alive)"

definition start :: "manager \<Rightarrow> manager" where
  "start s =
     (if running s then s
      else (clear_transcript (s\<lparr>paused := False, stop_all := False\<rparr>))
             \<lparr>results := [], pending := [],
              transcriber := Some Alive, scheduler := Some Alive\<rparr>)"

definition resume :: "manager \<Rightarrow> manager" where
  "resume s =
     (if running s then s
      else if \<not> paused s then s
      else (let s1 = s\<lparr>paused := False, stop_all := False\<rparr>;
                s2 = (if transcriber s1 = None \<or> transcriber s1 = Some Finished
                      then s1\<lparr>transcriber := Some Alive\<rparr> else s1)
            in s2\<lparr>scheduler := Some Alive\<rparr>))"

text \<open>\<open>_shutdown\<close> in three parts, cut at its two joins.\<close>

definition shutdown_signal :: "bool \<Rightarrow> manager \<Rightarrow> manager" where
  "shutdown_signal p s = s\<lparr>paused := p, stop_all := True, caller := Shutdown1\<rparr>"

definition shutdown_flush :: "manager \<Rightarrow> manager" where
  "shutdown_flush s =
     (let s1 = stop_active_segments s
      in s1\<lparr>pending := pending s1 @ [(\<infinity>, None)], caller := Shutdown2\<rparr>)"

definition shutdown_done :: "manager \<Rightarrow> manager" where
  "shutdown_done s = s\<lparr>transcriber := None, caller := Ready\<rparr>"

text \<open>\<open>cancel\<close> in three parts, cut at its two joins.\<close>

definition cancel_signal :: "manager \<Rightarrow> manager" where
  "cancel_signal s = s\<lparr>stop_all := True, caller := Cancel1\<rparr>"

definition discard_segment :: "nat \<Rightarrow> manager \<Rightarrow> manager" where
  "discard_segment i s =
     (let s1 = force_stop i s in
      case file_path (segs s1 i) of
        None \<Rightarrow> s1
      | Some p \<Rightarrow> if p \<in> files s1 then unlink p s1 else s1)"

definition discard_item :: "item \<Rightarrow> manager \<Rightarrow> manager" where
  "discard_item x s = (case snd x of None \<Rightarrow> s | Some p \<Rightarrow> unlink p s)"

definition cancel_discard :: "manager \<Rightarrow> manager" where
  "cancel_discard s =
     (let s1 = fold discard_segment (active s) (s\<lparr>active := []\<rparr>);
          s2 = fold discard_item (sort (pending s1)) (s1\<lparr>pending := []\<rparr>)
      in s2\<lparr>pending := [(\<infinity>, None)], caller := Cancel2\<rparr>)"

definition cancel_clear :: "manager \<Rightarrow> manager" where
  "cancel_clear s =
     (clear_transcript (s\<lparr>transcriber := None, results := []\<rparr>))
       \<lparr>paused := False, caller := Ready\<rparr>"

subsection \<open>Schedules\<close>

datatype action =
    Start | Resume | Pause | Stop | ShutdownFlush | ShutdownDone
  | Cancel | CancelDiscard | CancelClear
  | Spawn nat | SchedulerExit
  | SegRead nat | SegFail nat | SegExit nat | Watch nat
  | TranscriberGet | TranscriberBody

definition guard :: "bool \<Rightarrow> 'a \<Rightarrow> 'a option" where
  "guard b x = (if b then Some x else None)"

text \<open>
  The actions of a schedule, and when each can run.
  \<^item> \<open>Start\<close>, \<open>Resume\<close>, \<open>Pause\<close>, \<open>Stop\<close>, \<open>Cancel\<close>: the caller enters the method; the
    calls are made one at a time, so the caller is inside no other.
  \<^item> \<open>ShutdownFlush\<close>, \<open>CancelDiscard\<close>: the part of \<open>_shutdown\<close>, of \<open>cancel\<close>, after
    the join of the scheduler; the scheduler thread is not alive.
  \<^item> \<open>ShutdownDone\<close>, \<open>CancelClear\<close>: the part after the join of the transcriber; the
    transcriber thread is not alive.
  \<^item> \<open>Spawn now\<close>: one turn of the scheduler's loop at clock reading \<open>now\<close>; the stop
    flag is not set.
  \<^item> \<open>SchedulerExit\<close>: the scheduler sees the stop flag, runs
    \<open>_stop_active_segments\<close> and ends.
  \<^item> \<open>SegRead i\<close>: segment \<open>i\<close> passes its loop test and reads a block.
  \<^item> \<open>SegFail i\<close>: the device raises; \<open>run\<close> returns at once, with no artifact
    whatever was captured.
  \<^item> \<open>SegExit i\<close>: \<open>max_duration\<close> has elapsed after a block; the loop ends and the
    artifact is written. (The other way out of the loop, the stop event, is
    \<open>force_stop\<close>.)
  \<^item> \<open>Watch i\<close>: the watcher's join of segment \<open>i\<close> has returned.
  \<^item> \<open>TranscriberGet\<close>, \<open>TranscriberBody\<close>: the transcriber takes an item; it
    transcribes the item it holds.
  An action that cannot run gives \<open>None\<close>.
\<close>

fun step :: "config \<Rightarrow> action \<Rightarrow> manager \<Rightarrow> manager option" where
  "step c Start s = guard (caller s = Ready) (start s)"
| "step c Resume s = guard (caller s = Ready) (resume s)"
| "step c Pause s =
     guard (caller s = Ready) (if running s then shutdown_signal True s else s)"
| "step c Stop s = guard (caller s = Ready) (shutdown_signal False s)"
| "step c ShutdownFlush s =
     guard (caller s = Shutdown1 \<and> scheduler s \<noteq> Some Alive) (shutdown_flush s)"
| "step c ShutdownDone s =
     guard (caller s = Shutdown2 \<and> transcriber s \<noteq> Some Alive) (shutdown_done s)"
| "step c Cancel s = guard (caller s = Ready) (cancel_signal s)"
| "step c CancelDiscard s =
     guard (caller s = Cancel1 \<and> scheduler s \<noteq> Some Alive) (cancel_discard s)"
| "step c CancelClear s =
     guard (caller s = Cancel2 \<and> transcriber s \<noteq> Some Alive) (cancel_clear s)"
| "step c (Spawn now) s =
     guard (scheduler s = Some Alive \<and> \<not> stop_all s) (spawn now s)"
| "step c SchedulerExit s =
     guard (scheduler s = Some Alive \<and> stop_all s)
       ((stop_active_segments s)\<lparr>scheduler := Some Finished\<rparr>)"
| "step c (SegRead i) s =
     guard (i < next_seg s \<and> \<not> ended (segs s i) \<and> \<not> stop_event (segs s i))
       (s\<lparr>segs := (segs s)(i := (segs s i)\<lparr>frames := Suc (frames (segs s i))\<rparr>)\<rparr>)"
| "step c (SegFail i) s =
     guard (i < next_seg s \<and> \<not> ended (segs s i))
       (s\<lparr>segs := (segs s)(i := (segs s i)\<lparr>ended := True\<rparr>)\<rparr>)"
| "step c (SegExit i) s =
     guard (i < next_seg s \<and> \<not> ended (segs s i) \<and> 0 < frames (segs s i))
       (finish_segment i s)"
| "step c (Watch i) s =
     guard (i < next_seg s \<and> ended (segs s i)) (watch_segment i s)"
| "step c TranscriberGet s = transcriber_get s"
| "step c TranscriberBody s = transcriber_body c s"

fun run :: "config \<Rightarrow> action list \<Rightarrow> manager \<Rightarrow> manager option" where
  "run c [] s = Some s"
| "run c (a # as) s = (case step c a s of None \<Rightarrow> None | Some s1 \<Rightarrow> run c as s1)"

text \<open>The manager as \<open>__init__\<close> leaves it; the transcript file may be there from an
  earlier run of the program.\<close>

definition init :: "str option \<Rightarrow> manager" where
  "init old =
     \<lparr>stop_all = False, scheduler = None, active = [],
      segs = (\<lambda>_. \<lparr>started_at = 0, stop_event = False, frames = 0,
                    file_path = None, ended = True\<rparr>),
      next_seg = 0, paused = False, pending = [], results = [],
      transcriber = None, inflight = None, files = {}, transcript = old,
      calls = 0, trace = [], caller = Ready\<rparr>"

subsection \<open>Predicates and sample runs used by the properties\<close>

text \<open>The transcript read back is the join of the texts, sorted by capture start.\<close>

definition transcript_ok :: "manager \<Rightarrow> bool" where
  "transcript_ok s = (read_transcript s = join_sp (map snd (sort_key fst (results s))))"

text \<open>Two segments, started at 0 and 12; the watcher of the later one is the first to
  run, so the later segment is transcribed first. The client answers \<open>hello\<close> for the
  first artifact and, for any other, \<open>world\<close> after an em space (U+2003) and before a
  line feed.\<close>

definition two_texts :: config where
  "two_texts =
     \<lparr>llm = (\<lambda>p n. if p = 0 then Returned (Some (text_of ''hello''))
                     else Returned (Some ([8195] @ text_of ''world'' @ [10]))),
      max_retries = 3\<rparr>"

definition late_first :: "action list" where
  "late_first = [Start, Spawn 0, SegRead 0, Spawn 12, SegRead 1, SegExit 0, SegExit 1,
     Watch 1, TranscriberGet, TranscriberBody, Watch 0, TranscriberGet, TranscriberBody]"


text \<open>A client that is rate limited once, fails twice and then answers \<open>hello\<close>
  between a no-break space (U+00A0) with a space and a next line (U+0085); one that
  answers the empty text instead; a run that takes one segment up to the transcriber.\<close>

definition flaky :: config where
  "flaky = \<lparr>llm = (\<lambda>p n. if n = 0 then RateLimited else if n < 3 then Failed
                          else Returned (Some ([160, 32] @ text_of ''hello'' @ [133]))),
     max_retries = 3\<rparr>"




text \<open>A client that never returns a text, and a run of two segments against it.\<close>

definition mute :: config where
  "mute = \<lparr>llm = (\<lambda>p n. if n = 0 then RateLimited else if p = 0 then Returned None
                         else Returned (Some [])),
     max_retries = 3\<rparr>"

definition two_mute_segments :: "action list" where
  "two_mute_segments = [Start, Spawn 0, SegRead 0, Spawn 12, SegRead 1, SegExit 0, Watch 0,
     TranscriberGet, TranscriberBody, SegExit 1, Watch 1, TranscriberGet, TranscriberBody]"

text \<open>Segment \<open>i\<close> has left nothing: no artifact path, no file, no item in the queue
  or with the transcriber, no call of the client and no entry. A state is sound when
  that holds of every segment without frames, and no index beyond the segments spawned
  has frames.\<close>

definition untouched :: "nat \<Rightarrow> manager \<Rightarrow> bool" where
  "untouched i s \<longleftrightarrow>
     file_path (segs s i) = None \<and> i \<notin> files s \<and> Some i \<notin> snd ` set (pending s)
     \<and> map_option snd (inflight s) \<noteq> Some i
     \<and> Transcribe i \<notin> set (trace s) \<and> Recorded i \<notin> set (trace s)"

definition frames_inv :: "manager \<Rightarrow> bool" where
  "frames_inv s \<longleftrightarrow>
     (\<forall>i. frames (segs s i) = 0 \<longrightarrow> untouched i s)
     \<and> (\<forall>i. next_seg s \<le> i \<longrightarrow> frames (segs s i) = 0)"

text \<open>The device fails at once for the first segment; \<open>stop\<close> comes before the
  second has read a block.\<close>

definition stopped_early :: "action list" where
  "stopped_early = [Start, Spawn 0, SegFail 0, Watch 0, Spawn 12, Stop, SchedulerExit,
     ShutdownFlush, TranscriberGet, ShutdownDone]"

text \<open>Every item of the queue without an artifact is a sentinel, with key \<open>\<infinity>\<close>.\<close>

definition sentinels_ok :: "manager \<Rightarrow> bool" where
  "sentinels_ok s \<longleftrightarrow> (\<forall>x \<in> set (pending s). snd x = None \<longrightarrow> fst x = \<infinity>)"

text \<open>The artifact \<open>p\<close>, filed with capture start \<open>t\<close>, has been sent to the client; or
  \<open>_shutdown\<close> is under way, the transcriber is alive, and the item is in the queue or
  is the transcriber's current item.\<close>

definition served :: "nat \<Rightarrow> path \<Rightarrow> manager \<Rightarrow> bool" where
  "served t p s \<longleftrightarrow>
     Transcribe p \<in> set (trace s)
     \<or> ((caller s = Shutdown1 \<or> caller s = Shutdown2) \<and> transcriber s = Some Alive
         \<and> ((enat t, Some p) \<in> set (pending s) \<or> inflight s = Some (enat t, p)))"

text \<open>Sample runs: a recording whose first segment is transcribed and whose second is
  being captured; \<open>pause\<close> then \<open>resume\<close>, with the threads they wait for; a
  recording with one artifact in the queue; \<open>stop\<close>; \<open>cancel\<close>, during which the
  transcriber takes an item before the queue is drained; recordings with one and with two
  segments that have read a block, the transcriber idle.\<close>

definition recording :: "action list" where
  "recording = [Start, Spawn 0, SegRead 0, Spawn 12, SegRead 1, SegExit 0, Watch 0,
     TranscriberGet, TranscriberBody]"

definition pause_resume :: "action list" where
  "pause_resume = [Pause, SchedulerExit, ShutdownFlush, TranscriberGet, TranscriberBody,
     TranscriberGet, ShutdownDone, Resume]"

definition queued :: "action list" where
  "queued = [Start, Spawn 0, SegRead 0, Spawn 12, SegRead 1, SegExit 0, Watch 0]"

definition stop_call :: "action list" where
  "stop_call = [Stop, SchedulerExit, ShutdownFlush, TranscriberGet, TranscriberBody,
     TranscriberGet, TranscriberBody, TranscriberGet, ShutdownDone]"

definition cancel_call :: "action list" where
  "cancel_call = [Cancel, SchedulerExit, TranscriberGet, CancelDiscard, TranscriberBody,
     TranscriberGet, CancelClear]"

definition one_active :: "action list" where
  "one_active = [Start, Spawn 0, SegRead 0]"

definition two_active :: "action list" where
  "two_active = [Start, Spawn 0, SegRead 0, Spawn 12, SegRead 1]"

text \<open>What holds of the threads and the queue in every state a schedule reaches. In the
  queue the items without artifact are those with key \<open>\<infinity>\<close>. \<open>joining\<close>: the caller
  waits for the transcriber. While the scheduler is alive so is the transcriber; a
  sentinel is in the queue only while the caller waits for the transcriber, and then at
  most one if the transcriber is alive; once the transcriber has ended, the queue holds
  no artifact and no segment is active.\<close>

definition keyed :: "manager \<Rightarrow> bool" where
  "keyed s \<longleftrightarrow> (\<forall>x \<in> set (pending s). (snd x = None) = (fst x = \<infinity>))"

definition no_sentinel :: "manager \<Rightarrow> bool" where
  "no_sentinel s \<longleftrightarrow> (\<infinity>, None) \<notin> set (pending s)"

definition no_artifact :: "manager \<Rightarrow> bool" where
  "no_artifact s \<longleftrightarrow> (\<forall>x \<in> set (pending s). snd x = None)"

definition joining :: "manager \<Rightarrow> bool" where
  "joining s \<longleftrightarrow> caller s = Shutdown2 \<or> caller s = Cancel2"

definition coherent :: "manager \<Rightarrow> bool" where
  "coherent s \<longleftrightarrow>
     keyed s
     \<and> (scheduler s = Some Alive \<longrightarrow> transcriber s = Some Alive)
     \<and> (transcriber s = Some Alive \<and> \<not> joining s \<longrightarrow> no_sentinel s)
     \<and> (transcriber s = Some Alive \<and> joining s \<longrightarrow> count_list (pending s) (\<infinity>, None) \<le> 1)
     \<and> (joining s \<longrightarrow> scheduler s \<noteq> Some Alive \<and> active s = [])
     \<and> (transcriber s = Some Finished \<longrightarrow> joining s \<and> no_sentinel s)
     \<and> (transcriber s \<noteq> Some Alive \<longrightarrow> no_artifact s \<and> inflight s = None \<and> active s = [])
     \<and> ((caller s = Shutdown1 \<or> caller s = Shutdown2) \<and> paused s \<longrightarrow> transcriber s \<noteq> None)
     \<and> (caller s = Ready \<and> paused s \<longrightarrow> no_sentinel s)"

subsection \<open>What each function leaves alone\<close>

lemma unlink_frame [simp]:
  "results (unlink p s) = results s" "transcript (unlink p s) = transcript s"
  "pending (unlink p s) = pending s" "caller (unlink p s) = caller s"
  "transcriber (unlink p s) = transcriber s" "inflight (unlink p s) = inflight s"
  "scheduler (unlink p s) = scheduler s" "segs (unlink p s) = segs s"
  "next_seg (unlink p s) = next_seg s" "calls (unlink p s) = calls s"
  "active (unlink p s) = active s" "paused (unlink p s) = paused s"
  "stop_all (unlink p s) = stop_all s"
  "files (unlink p s) = files s - {p}" "trace (unlink p s) = trace s @ [Unlink p]"
  by (simp_all add: unlink_def)

lemma finish_segment_frame [simp]:
  "results (finish_segment i s) = results s" "transcript (finish_segment i s) = transcript s"
  "pending (finish_segment i s) = pending s" "caller (finish_segment i s) = caller s"
  "transcriber (finish_segment i s) = transcriber s" "inflight (finish_segment i s) = inflight s"
  "scheduler (finish_segment i s) = scheduler s" "trace (finish_segment i s) = trace s"
  "next_seg (finish_segment i s) = next_seg s" "calls (finish_segment i s) = calls s"
  "active (finish_segment i s) = active s" "paused (finish_segment i s) = paused s"
  "stop_all (finish_segment i s) = stop_all s"
  by (simp_all add: finish_segment_def Let_def)

lemma force_stop_frame [simp]:
  "results (force_stop i s) = results s" "transcript (force_stop i s) = transcript s"
  "pending (force_stop i s) = pending s" "caller (force_stop i s) = caller s"
  "transcriber (force_stop i s) = transcriber s" "inflight (force_stop i s) = inflight s"
  "scheduler (force_stop i s) = scheduler s" "trace (force_stop i s) = trace s"
  "next_seg (force_stop i s) = next_seg s" "calls (force_stop i s) = calls s"
  "active (force_stop i s) = active s" "paused (force_stop i s) = paused s"
  "stop_all (force_stop i s) = stop_all s"
  by (simp_all add: force_stop_def)

lemma file_segment_frame [simp]:
  "results (file_segment i s) = results s" "transcript (file_segment i s) = transcript s"
  "files (file_segment i s) = files s" "caller (file_segment i s) = caller s"
  "transcriber (file_segment i s) = transcriber s" "inflight (file_segment i s) = inflight s"
  "scheduler (file_segment i s) = scheduler s" "trace (file_segment i s) = trace s"
  "next_seg (file_segment i s) = next_seg s" "calls (file_segment i s) = calls s"
  "active (file_segment i s) = active s" "paused (file_segment i s) = paused s"
  "stop_all (file_segment i s) = stop_all s" "segs (file_segment i s) = segs s"
  by (simp_all add: file_segment_def split: option.splits)

lemma flush_fold_frame [simp]:
  "results (fold (\<lambda>i s. file_segment i (force_stop i s)) xs s) = results s"
  "transcript (fold (\<lambda>i s. file_segment i (force_stop i s)) xs s) = transcript s"
  "caller (fold (\<lambda>i s. file_segment i (force_stop i s)) xs s) = caller s"
  "transcriber (fold (\<lambda>i s. file_segment i (force_stop i s)) xs s) = transcriber s"
  "inflight (fold (\<lambda>i s. file_segment i (force_stop i s)) xs s) = inflight s"
  "scheduler (fold (\<lambda>i s. file_segment i (force_stop i s)) xs s) = scheduler s"
  "trace (fold (\<lambda>i s. file_segment i (force_stop i s)) xs s) = trace s"
  "next_seg (fold (\<lambda>i s. file_segment i (force_stop i s)) xs s) = next_seg s"
  "calls (fold (\<lambda>i s. file_segment i (force_stop i s)) xs s) = calls s"
  "active (fold (\<lambda>i s. file_segment i (force_stop i s)) xs s) = active s"
  "paused (fold (\<lambda>i s. file_segment i (force_stop i s)) xs s) = paused s"
  "stop_all (fold (\<lambda>i s. file_segment i (force_stop i s)) xs s) = stop_all s"
  by (induction xs arbitrary: s; simp)+

lemma stop_active_segments_frame [simp]:
  "results (stop_active_segments s) = results s"
  "transcript (stop_active_segments s) = transcript s"
  "caller (stop_active_segments s) = caller s"
  "transcriber (stop_active_segments s) = transcriber s"
  "inflight (stop_active_segments s) = inflight s"
  "scheduler (stop_active_segments s) = scheduler s"
  "trace (stop_active_segments s) = trace s"
  "next_seg (stop_active_segments s) = next_seg s"
  "calls (stop_active_segments s) = calls s"
  "active (stop_active_segments s) = []"
  "paused (stop_active_segments s) = paused s"
  "stop_all (stop_active_segments s) = stop_all s"
  by (simp_all add: stop_active_segments_def)

lemma watch_segment_frame [simp]:
  "results (watch_segment i s) = results s" "transcript (watch_segment i s) = transcript s"
  "files (watch_segment i s) = files s" "caller (watch_segment i s) = caller s"
  "transcriber (watch_segment i s) = transcriber s" "inflight (watch_segment i s) = inflight s"
  "scheduler (watch_segment i s) = scheduler s" "trace (watch_segment i s) = trace s"
  "next_seg (watch_segment i s) = next_seg s" "calls (watch_segment i s) = calls s"
  "paused (watch_segment i s) = paused s"
  "stop_all (watch_segment i s) = stop_all s" "segs (watch_segment i s) = segs s"
  by (simp_all add: watch_segment_def)

lemma spawn_frame [simp]:
  "results (spawn t s) = results s" "transcript (spawn t s) = transcript s"
  "files (spawn t s) = files s" "caller (spawn t s) = caller s"
  "transcriber (spawn t s) = transcriber s" "inflight (spawn t s) = inflight s"
  "scheduler (spawn t s) = scheduler s" "trace (spawn t s) = trace s"
  "pending (spawn t s) = pending s" "calls (spawn t s) = calls s"
  "paused (spawn t s) = paused s" "stop_all (spawn t s) = stop_all s"
  by (simp_all add: spawn_def)

lemma write_transcript_frame [simp]:
  "results (write_transcript s) = results s" "files (write_transcript s) = files s"
  "pending (write_transcript s) = pending s" "caller (write_transcript s) = caller s"
  "transcriber (write_transcript s) = transcriber s" "inflight (write_transcript s) = inflight s"
  "scheduler (write_transcript s) = scheduler s" "trace (write_transcript s) = trace s"
  "next_seg (write_transcript s) = next_seg s" "calls (write_transcript s) = calls s"
  "active (write_transcript s) = active s" "paused (write_transcript s) = paused s"
  "stop_all (write_transcript s) = stop_all s" "segs (write_transcript s) = segs s"
  by (simp_all add: write_transcript_def Let_def)

lemma clear_transcript_frame [simp]:
  "results (clear_transcript s) = results s" "files (clear_transcript s) = files s"
  "pending (clear_transcript s) = pending s" "caller (clear_transcript s) = caller s"
  "transcriber (clear_transcript s) = transcriber s" "inflight (clear_transcript s) = inflight s"
  "scheduler (clear_transcript s) = scheduler s" "trace (clear_transcript s) = trace s"
  "next_seg (clear_transcript s) = next_seg s" "calls (clear_transcript s) = calls s"
  "active (clear_transcript s) = active s" "paused (clear_transcript s) = paused s"
  "stop_all (clear_transcript s) = stop_all s" "segs (clear_transcript s) = segs s"
  "transcript (clear_transcript s) = None"
  by (simp_all add: clear_transcript_def)

lemma record_result_frame [simp]:
  "files (record_result ts p t s) = files s"
  "pending (record_result ts p t s) = pending s" "caller (record_result ts p t s) = caller s"
  "transcriber (record_result ts p t s) = transcriber s"
  "inflight (record_result ts p t s) = inflight s"
  "scheduler (record_result ts p t s) = scheduler s"
  "next_seg (record_result ts p t s) = next_seg s" "calls (record_result ts p t s) = calls s"
  "active (record_result ts p t s) = active s" "paused (record_result ts p t s) = paused s"
  "stop_all (record_result ts p t s) = stop_all s" "segs (record_result ts p t s) = segs s"
  by (simp_all add: record_result_def)

lemma transcribe_loop_frame:
  "transcribe_loop c p as s = (t, s') \<Longrightarrow>
     results s' = results s \<and> transcript s' = transcript s \<and> files s' = files s \<and>
     pending s' = pending s \<and> caller s' = caller s \<and> transcriber s' = transcriber s \<and>
     inflight s' = inflight s \<and> scheduler s' = scheduler s \<and> next_seg s' = next_seg s \<and>
     active s' = active s \<and> paused s' = paused s \<and> stop_all s' = stop_all s \<and>
     segs s' = segs s"
  by (induction c p as s rule: transcribe_loop.induct)
     (auto simp: Let_def split: outcome.splits if_splits)

lemma transcribe_single_frame:
  "transcribe_single c p s = (t, s') \<Longrightarrow>
     results s' = results s \<and> transcript s' = transcript s \<and> files s' = files s \<and>
     pending s' = pending s \<and> caller s' = caller s \<and> transcriber s' = transcriber s \<and>
     inflight s' = inflight s \<and> scheduler s' = scheduler s \<and> next_seg s' = next_seg s \<and>
     active s' = active s \<and> paused s' = paused s \<and> stop_all s' = stop_all s \<and>
     segs s' = segs s"
  unfolding transcribe_single_def by (rule transcribe_loop_frame)

lemma discard_segment_frame [simp]:
  "results (discard_segment i s) = results s" "transcript (discard_segment i s) = transcript s"
  "pending (discard_segment i s) = pending s" "caller (discard_segment i s) = caller s"
  "transcriber (discard_segment i s) = transcriber s" "inflight (discard_segment i s) = inflight s"
  "scheduler (discard_segment i s) = scheduler s"
  "next_seg (discard_segment i s) = next_seg s" "calls (discard_segment i s) = calls s"
  "active (discard_segment i s) = active s" "paused (discard_segment i s) = paused s"
  "stop_all (discard_segment i s) = stop_all s"
  by (simp_all add: discard_segment_def Let_def split: option.splits)

lemma discard_item_frame [simp]:
  "results (discard_item x s) = results s" "transcript (discard_item x s) = transcript s"
  "pending (discard_item x s) = pending s" "caller (discard_item x s) = caller s"
  "transcriber (discard_item x s) = transcriber s" "inflight (discard_item x s) = inflight s"
  "scheduler (discard_item x s) = scheduler s" "segs (discard_item x s) = segs s"
  "next_seg (discard_item x s) = next_seg s" "calls (discard_item x s) = calls s"
  "active (discard_item x s) = active s" "paused (discard_item x s) = paused s"
  "stop_all (discard_item x s) = stop_all s"
  by (simp_all add: discard_item_def split: option.splits)

lemma discard_segments_frame [simp]:
  "results (fold discard_segment xs s) = results s"
  "transcript (fold discard_segment xs s) = transcript s"
  "pending (fold discard_segment xs s) = pending s"
  "caller (fold discard_segment xs s) = caller s"
  "transcriber (fold discard_segment xs s) = transcriber s"
  "inflight (fold discard_segment xs s) = inflight s"
  "scheduler (fold discard_segment xs s) = scheduler s"
  "next_seg (fold discard_segment xs s) = next_seg s"
  "calls (fold discard_segment xs s) = calls s"
  "active (fold discard_segment xs s) = active s"
  "paused (fold discard_segment xs s) = paused s"
  "stop_all (fold discard_segment xs s) = stop_all s"
  by (induction xs arbitrary: s; simp)+

lemma discard_items_frame [simp]:
  "results (fold discard_item xs s) = results s"
  "transcript (fold discard_item xs s) = transcript s"
  "pending (fold discard_item xs s) = pending s"
  "caller (fold discard_item xs s) = caller s"
  "transcriber (fold discard_item xs s) = transcriber s"
  "inflight (fold discard_item xs s) = inflight s"
  "scheduler (fold discard_item xs s) = scheduler s"
  "segs (fold discard_item xs s) = segs s"
  "next_seg (fold discard_item xs s) = next_seg s"
  "calls (fold discard_item xs s) = calls s"
  "active (fold discard_item xs s) = active s"
  "paused (fold discard_item xs s) = paused s"
  "stop_all (fold discard_item xs s) = stop_all s"
  by (induction xs arbitrary: s; simp)+

lemma cancel_discard_frame [simp]:
  "results (cancel_discard s) = results s" "transcript (cancel_discard s) = transcript s"
  "pending (cancel_discard s) = [(\<infinity>, None)]" "caller (cancel_discard s) = Cancel2"
  "transcriber (cancel_discard s) = transcriber s" "inflight (cancel_discard s) = inflight s"
  "scheduler (cancel_discard s) = scheduler s"
  "next_seg (cancel_discard s) = next_seg s" "calls (cancel_discard s) = calls s"
  "active (cancel_discard s) = []" "paused (cancel_discard s) = paused s"
  "stop_all (cancel_discard s) = stop_all s"
  by (simp_all add: cancel_discard_def Let_def)

lemma shutdown_flush_frame [simp]:
  "results (shutdown_flush s) = results s" "transcript (shutdown_flush s) = transcript s"
  "caller (shutdown_flush s) = Shutdown2"
  "transcriber (shutdown_flush s) = transcriber s" "inflight (shutdown_flush s) = inflight s"
  "scheduler (shutdown_flush s) = scheduler s" "trace (shutdown_flush s) = trace s"
  "next_seg (shutdown_flush s) = next_seg s" "calls (shutdown_flush s) = calls s"
  "active (shutdown_flush s) = []" "paused (shutdown_flush s) = paused s"
  "stop_all (shutdown_flush s) = stop_all s"
  by (simp_all add: shutdown_flush_def Let_def)

text \<open>Only three actions write the result set or the transcript.\<close>

lemma step_keeps_results:
  assumes "step c a s = Some s'" and "a \<noteq> Start" and "a \<noteq> CancelClear"
    and "a \<noteq> TranscriberBody"
  shows "results s' = results s \<and> transcript s' = transcript s"
proof (cases a)
  case TranscriberGet
  with assms(1) show ?thesis
    by (auto simp: transcriber_get_def Let_def split: if_splits option.splits)
next
  case Resume
  with assms(1) show ?thesis
    by (auto simp: guard_def resume_def Let_def split: if_splits)
next
  case Pause
  with assms(1) show ?thesis
    by (auto simp: guard_def shutdown_signal_def split: if_splits)
next
  case Stop
  with assms(1) show ?thesis
    by (auto simp: guard_def shutdown_signal_def split: if_splits)
next
  case ShutdownFlush
  with assms(1) show ?thesis
    by (auto simp: guard_def split: if_splits)
next
  case ShutdownDone
  with assms(1) show ?thesis
    by (auto simp: guard_def shutdown_done_def split: if_splits)
next
  case Cancel
  with assms(1) show ?thesis
    by (auto simp: guard_def cancel_signal_def split: if_splits)
next
  case CancelDiscard
  with assms(1) show ?thesis
    by (auto simp: guard_def split: if_splits)
next
  case (Spawn t)
  with assms(1) show ?thesis
    by (auto simp: guard_def split: if_splits)
next
  case SchedulerExit
  with assms(1) show ?thesis
    by (auto simp: guard_def split: if_splits)
next
  case (SegRead i)
  with assms(1) show ?thesis
    by (auto simp: guard_def split: if_splits)
next
  case (SegFail i)
  with assms(1) show ?thesis
    by (auto simp: guard_def split: if_splits)
next
  case (SegExit i)
  with assms(1) show ?thesis
    by (auto simp: guard_def split: if_splits)
next
  case (Watch i)
  with assms(1) show ?thesis
    by (auto simp: guard_def split: if_splits)
qed (use assms in simp_all)

section \<open>Properties\<close>

text \<open>The definitions a sample run unfolds.\<close>

lemmas model_defs = guard_def start_def running_def clear_transcript_def spawn_def cancel_signal_def
    stop_active_segments_def force_stop_def finish_segment_def file_segment_def transcriber_get_def transcriber_body_def
    transcribe_single_def record_result_def write_transcript_def unlink_def cancel_discard_def cancel_clear_def discard_item_def discard_segment_def strip_def is_space_def text_of_def
    shutdown_signal_def shutdown_flush_def shutdown_done_def resume_def watch_segment_def read_transcript_def init_def Let_def upt_conv_Cons

subsection \<open>The transcript is the sorted join of the result set\<close>

lemma sort_key_Nil_iff [simp]: "sort_key f xs = [] \<longleftrightarrow> xs = []"
  by (metis length_0_conv length_sort)

lemma transcript_ok_cong:
  "results s' = results s \<Longrightarrow> transcript s' = transcript s \<Longrightarrow> transcript_ok s' = transcript_ok s"
  by (simp add: transcript_ok_def read_transcript_def)

lemma write_transcript_writes:
  "results s \<noteq> [] \<Longrightarrow>
     transcript (write_transcript s) = Some (join_sp (map snd (sort_key fst (results s))))"
  by (simp add: write_transcript_def Let_def)

lemma write_transcript_ok: "results s \<noteq> [] \<Longrightarrow> transcript_ok (write_transcript s)"
  by (simp add: transcript_ok_def read_transcript_def write_transcript_writes)

lemma record_result_ok: "transcript_ok s \<Longrightarrow> transcript_ok (record_result ts p t s)"
  by (simp add: record_result_def write_transcript_ok)

lemma start_ok: "\<not> running s \<Longrightarrow> transcript_ok (start s)"
  by (simp add: start_def transcript_ok_def read_transcript_def)

lemma transcriber_body_ok:
  assumes "transcript_ok s" and "transcriber_body c s = Some s'"
  shows "transcript_ok s'"
proof -
  from assms(2) obtain ts p t s1 where
    run1: "transcribe_single c p s = (t, s1)" and
    s': "s' = (unlink p (record_result ts p t s1))\<lparr>inflight := None\<rparr>"
    by (auto simp: transcriber_body_def split: option.splits prod.splits)
  from transcribe_single_frame[OF run1] assms(1) have "transcript_ok s1"
    using transcript_ok_cong[of s1 s] by simp
  then have "transcript_ok (record_result ts p t s1)"
    by (rule record_result_ok)
  then show ?thesis
    unfolding s' by (simp add: transcript_ok_def read_transcript_def)
qed

lemma step_transcript_ok:
  assumes "transcript_ok s" and "step c a s = Some s'"
  shows "transcript_ok s'"
proof -
  consider "a = Start" | "a = CancelClear" | "a = TranscriberBody"
    | "a \<noteq> Start" "a \<noteq> CancelClear" "a \<noteq> TranscriberBody"
    by blast
  then show ?thesis
  proof cases
    case 1
    with assms(2) have s': "s' = start s"
      by (simp add: guard_def split: if_splits)
    show ?thesis
    proof (cases "running s")
      case True
      with assms(1) s' show ?thesis by (simp add: start_def)
    next
      case False
      then show ?thesis unfolding s' by (rule start_ok)
    qed
  next
    case 2
    with assms(2) show ?thesis
      by (auto simp: guard_def cancel_clear_def transcript_ok_def read_transcript_def
          split: if_splits)
  next
    case 3
    with assms show ?thesis by (simp add: transcriber_body_ok)
  next
    case 4
    from step_keeps_results[OF assms(2) 4] assms(1) show ?thesis
      using transcript_ok_cong[of s' s] by simp
  qed
qed

lemma run_transcript_ok:
  "transcript_ok s \<Longrightarrow> run c sched s = Some s' \<Longrightarrow> transcript_ok s'"
proof (induction sched arbitrary: s)
  case Nil
  then show ?case by simp
next
  case (Cons a sched)
  from Cons.prems(2) obtain s1 where
    1: "step c a s = Some s1" and 2: "run c sched s1 = Some s'"
    by (auto split: option.splits)
  from Cons.prems(1) 1 have "transcript_ok s1" by (rule step_transcript_ok)
  then show ?case using 2 by (rule Cons.IH)
qed

lemma sort_key_of_permutation:
  assumes "mset rs = mset rs'" and "distinct (map fst rs')"
  shows "sort_key fst rs = sort_key fst rs'"
proof (rule sort_key_inj_key_eq)
  show "mset rs = mset (sort_key fst rs')" using assms(1) by simp
  from assms(2) have "inj_on fst (set rs')" by (simp add: distinct_map)
  moreover from assms(1) have "set rs = set rs'" by (rule mset_eq_setD)
  ultimately show "inj_on fst (set rs)" by simp
  show "sorted (map fst (sort_key fst rs'))" by simp
qed

text \<open>
  C1. From \<open>start\<close> on, whatever the threads do and in whatever order transcriptions
  complete, the transcript read back is the space-joined texts of the result set in the
  stable sort by capture start, which is what every write of \<open>_write_transcript\<close>
  puts in the file; the sorted list is ascending and holds the same entries;
  and, when the capture starts are distinct, any other order of arrival of the same
  entries gives the same text.
\<close>

theorem transcript_is_sorted_join:
  assumes "\<not> running s" and "run c (Start # sched) s = Some s'"
  shows "read_transcript s' = join_sp (map snd (sort_key fst (results s')))
    \<and> (results u \<noteq> [] \<longrightarrow>
          transcript (write_transcript u) = Some (join_sp (map snd (sort_key fst (results u)))))
    \<and> sorted (map fst (sort_key fst (results s')))
    \<and> mset (sort_key fst (results s')) = mset (results s')
    \<and> (\<forall>rs. mset rs = mset (results s') \<and> distinct (map fst rs)
          \<longrightarrow> join_sp (map snd (sort_key fst rs)) = read_transcript s')"
proof -
  from assms(2) obtain s1 where "step c Start s = Some s1" and rest: "run c sched s1 = Some s'"
    by (auto split: option.splits)
  with assms(1) have "transcript_ok s1"
    by (auto simp: guard_def start_ok split: if_splits)
  then have ok: "transcript_ok s'" using rest by (rule run_transcript_ok)
  then have 1: "read_transcript s' = join_sp (map snd (sort_key fst (results s')))"
    by (simp add: transcript_ok_def)
  have 2: "join_sp (map snd (sort_key fst rs)) = read_transcript s'"
    if "mset rs = mset (results s')" "distinct (map fst rs)" for rs
    using sort_key_of_permutation[OF that(1)[symmetric] that(2)] 1 by simp
  have 3: "sorted (map fst (sort_key fst (results s')))" by simp
  have 4: "mset (sort_key fst (results s')) = mset (results s')" by simp
  have 5: "results u \<noteq> [] \<longrightarrow>
      transcript (write_transcript u) = Some (join_sp (map snd (sort_key fst (results u))))"
    by (simp add: write_transcript_writes)
  from 1 2 3 4 5 show ?thesis by blast
qed

lemma late_first_run:
  "case run two_texts late_first (init None) of None \<Rightarrow> False
   | Some s \<Rightarrow> results s = [(enat 12, (text_of ''world'')), (enat 0, (text_of ''hello''))]"
  by (simp add: two_texts_def late_first_def model_defs)

theorem transcript_is_sorted_join_witness:
  "\<not> running (init None)
   \<and> map_option results (run two_texts late_first (init None))
       = Some [(enat 12, (text_of ''world'')), (enat 0, (text_of ''hello''))]
   \<and> map_option read_transcript (run two_texts late_first (init None)) = Some (text_of ''hello world'')"
proof -
  from late_first_run obtain s' where
    r: "run two_texts late_first (init None) = Some s'" and
    rs: "results s' = [(enat 12, (text_of ''world'')), (enat 0, (text_of ''hello''))]"
    by (auto split: option.splits)
  have idle: "\<not> running (init None)" by (simp add: running_def init_def)
  from r have "run two_texts (Start # tl late_first) (init None) = Some s'"
    by (simp add: late_first_def)
  from transcript_is_sorted_join[OF idle this]
  have "read_transcript s' = join_sp (map snd (sort_key fst (results s')))" by blast
  with rs have "read_transcript s' = (text_of ''hello world'')" by (simp add: text_of_def)
  with r rs idle show ?thesis by simp
qed

subsection \<open>Bounded retries\<close>

lemma transcribe_loop_calls:
  "transcribe_loop c p as s = (t, s') \<Longrightarrow>
     calls s \<le> calls s' \<and> calls s' \<le> calls s + length as"
proof (induction c p as s rule: transcribe_loop.induct)
  case (1 c p s)
  then show ?case by simp
next
  case (2 c p attempt rest s)
  show ?case
  proof (cases "llm c p (calls s)")
    case (Returned r)
    with "2.prems" show ?thesis by (auto simp: Let_def)
  next
    case RateLimited
    with "2.prems" "2.IH"(1) show ?thesis
      by (fastforce simp: Let_def split: if_splits)
  next
    case Failed
    with "2.prems" "2.IH"(2) show ?thesis
      by (fastforce simp: Let_def split: if_splits)
  qed
qed

lemma transcribe_single_calls:
  "transcribe_single c p s = (t, s') \<Longrightarrow>
     calls s \<le> calls s' \<and> calls s' \<le> calls s + nat (max_retries c + 1)"
  unfolding transcribe_single_def by (drule transcribe_loop_calls) simp

text \<open>A text that comes back is the value of the last call made.\<close>

lemma transcribe_loop_text:
  "transcribe_loop c p as s = (t, s') \<Longrightarrow> t \<noteq> [] \<Longrightarrow>
     calls s < calls s' \<and> llm c p (calls s' - 1) = Returned (Some t)"
proof (induction c p as s rule: transcribe_loop.induct)
  case (1 c p s)
  then show ?case by simp
next
  case (2 c p attempt rest s)
  show ?case
  proof (cases "llm c p (calls s)")
    case (Returned r)
    with "2.prems" show ?thesis by (auto simp: Let_def split: option.splits)
  next
    case RateLimited
    with "2.prems" "2.IH"(1) show ?thesis
      by (fastforce simp: Let_def split: if_splits)
  next
    case Failed
    with "2.prems" "2.IH"(2) show ?thesis
      by (fastforce simp: Let_def split: if_splits)
  qed
qed

lemma transcribe_single_text:
  "transcribe_single c p s = (t, s') \<Longrightarrow> t \<noteq> [] \<Longrightarrow>
     calls s < calls s' \<and> llm c p (calls s' - 1) = Returned (Some t)"
  unfolding transcribe_single_def by (rule transcribe_loop_text)





lemma run_append:
  "run c (as @ bs) s = (case run c as s of None \<Rightarrow> None | Some s1 \<Rightarrow> run c bs s1)"
  by (induction as arbitrary: s) (simp_all split: option.splits)

lemma transcriber_body_unfold:
  assumes "inflight s = Some (ts, p)" and "transcribe_single c p s = (t, s1)"
  shows "transcriber_body c s = Some ((unlink p (record_result ts p t s1))\<lparr>inflight := None\<rparr>)"
  using assms by (simp add: transcriber_body_def)










subsection \<open>start while recording\<close>



subsection \<open>Nothing is written while no text has come back\<close>

lemmas caller_defs = guard_def start_def resume_def shutdown_signal_def shutdown_done_def
  cancel_signal_def cancel_clear_def Let_def

lemma step_calls:
  assumes "step c a s = Some s'"
  shows "calls s \<le> calls s'"
proof (cases a)
  case TranscriberBody
  with assms obtain ts p t s1 where
    single: "transcribe_single c p s = (t, s1)" and
    s': "s' = (unlink p (record_result ts p t s1))\<lparr>inflight := None\<rparr>"
    by (auto simp: transcriber_body_def split: option.splits prod.splits)
  from transcribe_single_calls[OF single] show ?thesis by (simp add: s')
next
  case TranscriberGet
  with assms show ?thesis
    by (auto simp: transcriber_get_def Let_def split: if_splits option.splits)
qed (use assms in \<open>auto simp: caller_defs split: if_splits\<close>)

lemma run_calls: "run c sched s = Some s' \<Longrightarrow> calls s \<le> calls s'"
proof (induction sched arbitrary: s)
  case Nil
  then show ?case by simp
next
  case (Cons a sched)
  then obtain s1 where "step c a s = Some s1" and "run c sched s1 = Some s'"
    by (auto split: option.splits)
  with Cons.IH step_calls show ?case by (meson le_trans)
qed

text \<open>No entry and no transcript, as long as no call returns a text.\<close>

lemma step_stays_empty:
  assumes "results s = []" and "transcript s = None" and "step c a s = Some s'"
    and quiet: "\<forall>n p t. calls s \<le> n \<and> n < calls s' \<and> llm c p n = Returned (Some t) \<longrightarrow> t = []"
  shows "results s' = [] \<and> transcript s' = None"
proof -
  consider "a = Start" | "a = CancelClear" | "a = TranscriberBody"
    | "a \<noteq> Start" "a \<noteq> CancelClear" "a \<noteq> TranscriberBody"
    by blast
  then show ?thesis
  proof cases
    case 1
    with assms(1-3) show ?thesis
      by (auto simp: guard_def start_def clear_transcript_def split: if_splits)
  next
    case 2
    with assms(3) show ?thesis
      by (auto simp: guard_def cancel_clear_def split: if_splits)
  next
    case 3
    with assms(3) obtain ts p t s1 where
      single: "transcribe_single c p s = (t, s1)" and
      s': "s' = (unlink p (record_result ts p t s1))\<lparr>inflight := None\<rparr>"
      by (auto simp: transcriber_body_def split: option.splits prod.splits)
    have c': "calls s' = calls s1" by (simp add: s')
    have "t = []"
    proof (rule ccontr)
      assume "t \<noteq> []"
      from transcribe_single_text[OF single this]
      have "calls s < calls s1" and "llm c p (calls s1 - 1) = Returned (Some t)" by auto
      moreover from this c' have "calls s \<le> calls s1 - 1 \<and> calls s1 - 1 < calls s'"
        by arith
      ultimately show False
        using quiet[rule_format, of "calls s1 - 1" p t] \<open>t \<noteq> []\<close> by blast
    qed
    with transcribe_single_frame[OF single] assms(1,2) show ?thesis
      by (simp add: s' record_result_def)
  next
    case 4
    from step_keeps_results[OF assms(3) 4] assms(1,2) show ?thesis by simp
  qed
qed

lemma run_stays_empty:
  assumes "results s = []" and "transcript s = None" and "run c sched s = Some s'"
    and "\<forall>n p t. calls s \<le> n \<and> n < calls s' \<and> llm c p n = Returned (Some t) \<longrightarrow> t = []"
  shows "results s' = [] \<and> transcript s' = None"
  using assms
proof (induction sched arbitrary: s)
  case Nil
  then show ?case by simp
next
  case (Cons a sched)
  from Cons.prems(3) obtain s1 where
    1: "step c a s = Some s1" and 2: "run c sched s1 = Some s'"
    by (auto split: option.splits)
  from step_calls[OF 1] run_calls[OF 2] have le: "calls s \<le> calls s1" "calls s1 \<le> calls s'"
    by auto
  have "results s1 = [] \<and> transcript s1 = None"
  proof (rule step_stays_empty[OF Cons.prems(1,2) 1], intro allI impI)
    fix n p t
    assume "calls s \<le> n \<and> n < calls s1 \<and> llm c p n = Returned (Some t)"
    with le Cons.prems(4) show "t = []" by (meson less_le_trans)
  qed
  moreover have "\<forall>n p t. calls s1 \<le> n \<and> n < calls s' \<and> llm c p n = Returned (Some t) \<longrightarrow> t = []"
    using le Cons.prems(4) by (meson le_trans)
  ultimately show ?case using Cons.IH[OF _ _ 2] by blast
qed

text \<open>
  C10. With an empty result set \<open>_write_transcript\<close> changes nothing, so the file is
  neither created nor truncated. A turn of the transcriber whose attempt yields the empty
  text (a success without text, or retries exhausted) leaves the result set and the
  transcript as they were. Hence, from \<open>start\<close> on, as long as no call of the client
  has returned a text that is not empty, the result set is empty and
  \<open>read_transcript\<close> returns the empty string.
\<close>

theorem no_text_no_write:
  "(results s = [] \<longrightarrow> write_transcript s = s)
   \<and> (inflight s = Some (ts, p) \<and> fst (transcribe_single c p s) = [] \<longrightarrow>
        (\<exists>s'. transcriber_body c s = Some s' \<and> results s' = results s
               \<and> transcript s' = transcript s))
   \<and> (\<not> running s \<and> run c (Start # sched) s = Some s'
        \<and> (\<forall>n p t. calls s \<le> n \<and> n < calls s' \<and> llm c p n = Returned (Some t) \<longrightarrow> t = [])
        \<longrightarrow> read_transcript s' = [] \<and> results s' = [])"
proof (intro conjI impI)
  assume "results s = []"
  then show "write_transcript s = s" by (simp add: write_transcript_def)
next
  assume a: "inflight s = Some (ts, p) \<and> fst (transcribe_single c p s) = []"
  then obtain s1 where single: "transcribe_single c p s = ([], s1)"
    by (cases "transcribe_single c p s") auto
  from a have "transcriber_body c s =
      Some ((unlink p (record_result ts p [] s1))\<lparr>inflight := None\<rparr>)"
    using single by (simp add: transcriber_body_unfold)
  with transcribe_single_frame[OF single]
  show "\<exists>s'. transcriber_body c s = Some s' \<and> results s' = results s
               \<and> transcript s' = transcript s"
    by (simp add: record_result_def)
next
  assume a: "\<not> running s \<and> run c (Start # sched) s = Some s'
        \<and> (\<forall>n p t. calls s \<le> n \<and> n < calls s' \<and> llm c p n = Returned (Some t) \<longrightarrow> t = [])"
  then obtain s1 where 1: "step c Start s = Some s1" and 2: "run c sched s1 = Some s'"
    by (auto split: option.splits)
  from a 1 have s1: "results s1 = []" "transcript s1 = None" "calls s1 = calls s"
    by (auto simp: guard_def start_def split: if_splits)
  with a have "\<forall>n p t. calls s1 \<le> n \<and> n < calls s' \<and> llm c p n = Returned (Some t) \<longrightarrow> t = []"
    by simp
  from run_stays_empty[OF s1(1,2) 2 this]
  have "results s' = [] \<and> transcript s' = None" .
  then show "read_transcript s' = []" and "results s' = []"
    by (simp_all add: read_transcript_def)
qed

lemma two_mute_segments_run:
  "case run mute two_mute_segments (init (Some (text_of ''old text''))) of None \<Rightarrow> False
   | Some s \<Rightarrow> calls s = 3 \<and> trace s = [Transcribe 0, Sleep 5, Transcribe 0, Unlink 0,
       Transcribe 1, Unlink 1]"
  by (simp add: mute_def two_mute_segments_def model_defs)

lemma first_mute_segment_run:
  "case run mute (take 8 two_mute_segments) (init (Some (text_of ''old text''))) of None \<Rightarrow> False
   | Some s \<Rightarrow> inflight s = Some (enat 0, 0) \<and> fst (transcribe_single mute 0 s) = []"
  by (simp add: mute_def two_mute_segments_def model_defs)

theorem no_text_no_write_witness:
  "map_option (\<lambda>s. (read_transcript s, results s, calls s))
     (run mute two_mute_segments (init (Some (text_of ''old text'')))) = Some ([], [], 3)
   \<and> write_transcript (init (Some (text_of ''old text''))) = init (Some (text_of ''old text''))
   \<and> (case run mute (take 8 two_mute_segments) (init (Some (text_of ''old text''))) of
         None \<Rightarrow> False
       | Some s \<Rightarrow> map_option (\<lambda>s'. (results s', transcript s')) (transcriber_body mute s)
                    = Some (results s, transcript s))"
proof -
  let ?s = "init (Some (text_of ''old text''))"
  from two_mute_segments_run obtain s' where
    r: "run mute two_mute_segments ?s = Some s'" and c: "calls s' = 3"
    by (auto split: option.splits)
  have idle: "\<not> running ?s" by (simp add: running_def init_def)
  have r': "run mute (Start # tl two_mute_segments) ?s = Some s'"
    using r by (simp add: two_mute_segments_def)
  have q: "\<forall>n p t. calls ?s \<le> n \<and> n < calls s' \<and> llm mute p n = Returned (Some t) \<longrightarrow> t = []"
    by (simp add: mute_def)
  have e: "results ?s = []" by (simp add: init_def)
  from no_text_no_write[of ?s "enat 0" 0 mute "tl two_mute_segments" s'] idle r' q e
  have 1: "read_transcript s' = [] \<and> results s' = []" and 2: "write_transcript ?s = ?s"
    by blast+
  from first_mute_segment_run obtain s2 where
    r2: "run mute (take 8 two_mute_segments) ?s = Some s2" and
    i2: "inflight s2 = Some (enat 0, 0)" and t2: "fst (transcribe_single mute 0 s2) = []"
    by (auto split: option.splits)
  from no_text_no_write[of s2 "enat 0" 0 mute "[]" s2] i2 t2
  have "\<exists>s'. transcriber_body mute s2 = Some s' \<and> results s' = results s2
               \<and> transcript s' = transcript s2"
    by blast
  then have 3: "map_option (\<lambda>s'. (results s', transcript s')) (transcriber_body mute s2)
      = Some (results s2, transcript s2)"
    by auto
  from 1 2 3 r r2 c show ?thesis by simp
qed

subsection \<open>A segment without frames leaves nothing\<close>

lemma frames_inv_cong:
  assumes inv: "frames_inv s"
    and segs: "segs s' = segs s" and files: "files s' \<subseteq> files s"
    and pend: "snd ` set (pending s') \<subseteq> insert None (snd ` set (pending s))"
    and cur: "inflight s' = inflight s \<or> inflight s' = None"
    and tr: "\<And>i. Transcribe i \<in> set (trace s') \<Longrightarrow> Transcribe i \<in> set (trace s)"
    and rec: "\<And>i. Recorded i \<in> set (trace s') \<Longrightarrow> Recorded i \<in> set (trace s)"
    and nxt: "next_seg s' = next_seg s"
  shows "frames_inv s'"
  unfolding frames_inv_def
proof (intro conjI allI impI)
  fix i assume "frames (segs s' i) = 0"
  with inv segs have u: "untouched i s" by (simp add: frames_inv_def)
  have "Some i \<notin> snd ` set (pending s')"
  proof
    assume "Some i \<in> snd ` set (pending s')"
    with pend have "Some i \<in> insert None (snd ` set (pending s))" by (rule subsetD)
    with u show False by (simp add: untouched_def)
  qed
  moreover have "map_option snd (inflight s') \<noteq> Some i"
    using cur u by (auto simp: untouched_def)
  moreover have "i \<notin> files s'" using files u by (auto simp: untouched_def)
  moreover have "Transcribe i \<notin> set (trace s')" using tr u by (auto simp: untouched_def)
  moreover have "Recorded i \<notin> set (trace s')" using rec u by (auto simp: untouched_def)
  moreover have "file_path (segs s' i) = None" using segs u by (simp add: untouched_def)
  ultimately show "untouched i s'" by (simp add: untouched_def)
next
  fix i assume "next_seg s' \<le> i"
  with inv segs nxt show "frames (segs s' i) = 0" by (simp add: frames_inv_def)
qed

lemma finish_segment_inv: "frames_inv s \<Longrightarrow> frames_inv (finish_segment i s)"
  unfolding frames_inv_def untouched_def finish_segment_def Let_def
  by auto

lemma stop_event_inv:
  "frames_inv s \<Longrightarrow> frames_inv (s\<lparr>segs := (segs s)(i := (segs s i)\<lparr>stop_event := True\<rparr>)\<rparr>)"
  unfolding frames_inv_def untouched_def by auto

lemma force_stop_inv: "frames_inv s \<Longrightarrow> frames_inv (force_stop i s)"
  unfolding force_stop_def by (intro finish_segment_inv stop_event_inv)

lemma file_segment_inv: "frames_inv s \<Longrightarrow> frames_inv (file_segment i s)"
  unfolding frames_inv_def untouched_def file_segment_def
  by (auto split: option.splits)

lemma flush_fold_inv:
  "frames_inv s \<Longrightarrow> frames_inv (fold (\<lambda>i s. file_segment i (force_stop i s)) xs s)"
  by (induction xs arbitrary: s) (simp_all add: file_segment_inv force_stop_inv)

lemma active_update_inv: "frames_inv s \<Longrightarrow> frames_inv (s\<lparr>active := xs\<rparr>)"
  unfolding frames_inv_def untouched_def by simp

lemma stop_active_segments_inv: "frames_inv s \<Longrightarrow> frames_inv (stop_active_segments s)"
  unfolding stop_active_segments_def by (intro flush_fold_inv active_update_inv)

lemma unlink_inv: "frames_inv s \<Longrightarrow> frames_inv (unlink p s)"
  unfolding frames_inv_def untouched_def unlink_def by auto

lemma discard_segment_inv: "frames_inv s \<Longrightarrow> frames_inv (discard_segment i s)"
  unfolding discard_segment_def Let_def
  by (auto split: option.splits intro: unlink_inv force_stop_inv)

lemma discard_item_inv: "frames_inv s \<Longrightarrow> frames_inv (discard_item x s)"
  unfolding discard_item_def by (auto split: option.splits intro: unlink_inv)

lemma discard_segments_inv: "frames_inv s \<Longrightarrow> frames_inv (fold discard_segment xs s)"
  by (induction xs arbitrary: s) (simp_all add: discard_segment_inv)

lemma discard_items_inv: "frames_inv s \<Longrightarrow> frames_inv (fold discard_item xs s)"
  by (induction xs arbitrary: s) (simp_all add: discard_item_inv)

lemma pending_update_inv:
  "frames_inv s \<Longrightarrow> snd ` set q \<subseteq> insert None (snd ` set (pending s)) \<Longrightarrow>
     frames_inv (s\<lparr>pending := q\<rparr>)"
  unfolding frames_inv_def untouched_def by auto

lemma cancel_discard_inv:
  assumes "frames_inv s"
  shows "frames_inv (cancel_discard s)"
proof -
  let ?s1 = "fold discard_segment (active s) (s\<lparr>active := []\<rparr>)"
  let ?s2 = "fold discard_item (sort (pending ?s1)) (?s1\<lparr>pending := []\<rparr>)"
  have "frames_inv ?s1" using assms by (intro discard_segments_inv active_update_inv)
  then have "frames_inv (?s1\<lparr>pending := []\<rparr>)" by (rule pending_update_inv) simp
  then have "frames_inv ?s2" by (rule discard_items_inv)
  then have "frames_inv (?s2\<lparr>pending := [(\<infinity>, None)]\<rparr>)"
    by (rule pending_update_inv) simp
  then have "frames_inv (?s2\<lparr>pending := [(\<infinity>, None)], caller := Cancel2\<rparr>)"
    unfolding frames_inv_def untouched_def by simp
  then show ?thesis by (simp add: cancel_discard_def Let_def)
qed

lemma shutdown_flush_inv:
  assumes "frames_inv s"
  shows "frames_inv (shutdown_flush s)"
proof -
  let ?s1 = "stop_active_segments s"
  have "frames_inv ?s1" using assms by (rule stop_active_segments_inv)
  then have "frames_inv (?s1\<lparr>pending := pending ?s1 @ [(\<infinity>, None)]\<rparr>)"
    by (rule pending_update_inv) auto
  then have "frames_inv (?s1\<lparr>pending := pending ?s1 @ [(\<infinity>, None)], caller := Shutdown2\<rparr>)"
    unfolding frames_inv_def untouched_def by simp
  then show ?thesis by (simp add: shutdown_flush_def Let_def)
qed

lemma spawn_inv: "frames_inv s \<Longrightarrow> frames_inv (spawn now s)"
  unfolding frames_inv_def untouched_def spawn_def by auto

lemma watch_segment_inv: "frames_inv s \<Longrightarrow> frames_inv (watch_segment i s)"
  unfolding watch_segment_def by (auto intro: file_segment_inv active_update_inv)

lemma transcriber_get_inv:
  assumes "frames_inv s" and "transcriber_get s = Some s'"
  shows "frames_inv s'"
proof -
  let ?x = "Min (set (pending s))"
  from assms(2) have ne: "pending s \<noteq> []" and idle: "inflight s = None"
    by (auto simp: transcriber_get_def split: if_splits)
  then have mem: "?x \<in> set (pending s)" by simp
  have sub: "snd ` set (remove1 ?x (pending s)) \<subseteq> insert None (snd ` set (pending s))"
    using set_remove1_subset[of ?x "pending s"] by auto
  show ?thesis
  proof (cases "snd ?x")
    case None
    with assms(2) ne idle have "s' = s\<lparr>pending := remove1 ?x (pending s), transcriber := Some Finished\<rparr>"
      by (auto simp: transcriber_get_def Let_def split: if_splits)
    moreover have "frames_inv (s\<lparr>pending := remove1 ?x (pending s)\<rparr>)"
      using assms(1) sub by (rule pending_update_inv)
    ultimately show ?thesis unfolding frames_inv_def untouched_def by simp
  next
    case (Some p)
    with assms(2) ne idle have s': "s' = s\<lparr>pending := remove1 ?x (pending s), inflight := Some (fst ?x, p)\<rparr>"
      by (auto simp: transcriber_get_def Let_def split: if_splits)
    from Some mem have "Some p \<in> snd ` set (pending s)" by force
    with assms(1) have "frames (segs s p) \<noteq> 0"
      unfolding frames_inv_def untouched_def by blast
    with assms(1) sub show ?thesis
      unfolding s' frames_inv_def untouched_def by auto
  qed
qed

lemma transcribe_loop_trace:
  "transcribe_loop c p as s = (t, s') \<Longrightarrow> e \<in> set (trace s') \<Longrightarrow>
     e \<in> set (trace s) \<or> e = Transcribe p \<or> (\<exists>w. e = Sleep w)"
proof (induction c p as s rule: transcribe_loop.induct)
  case (1 c p s)
  then show ?case by simp
next
  case (2 c p attempt rest s)
  show ?case
  proof (cases "llm c p (calls s)")
    case (Returned r)
    with "2.prems" show ?thesis by (auto simp: Let_def)
  next
    case RateLimited
    with "2.prems" "2.IH"(1) show ?thesis
      by (fastforce simp: Let_def split: if_splits)
  next
    case Failed
    with "2.prems" "2.IH"(2) show ?thesis
      by (fastforce simp: Let_def split: if_splits)
  qed
qed

lemma transcriber_body_inv:
  assumes "frames_inv s" and "transcriber_body c s = Some s'"
  shows "frames_inv s'"
proof -
  from assms(2) obtain ts p t s1 where
    cur: "inflight s = Some (ts, p)" and
    single: "transcribe_single c p s = (t, s1)" and
    s': "s' = (unlink p (record_result ts p t s1))\<lparr>inflight := None\<rparr>"
    by (auto simp: transcriber_body_def split: option.splits prod.splits)
  note frame = transcribe_single_frame[OF single]
  from cur assms(1) have pos: "frames (segs s p) \<noteq> 0"
    unfolding frames_inv_def untouched_def by auto
  have tr: "e \<in> set (trace s') \<Longrightarrow>
      e \<in> set (trace s) \<or> e = Transcribe p \<or> (\<exists>w. e = Sleep w) \<or> e = Recorded p \<or> e = Unlink p" for e
    using transcribe_loop_trace[OF single[unfolded transcribe_single_def], of e]
    unfolding s' by (auto simp: record_result_def split: if_splits)
  have f: "segs s' = segs s" "files s' \<subseteq> files s" "pending s' = pending s"
    "inflight s' = None" "next_seg s' = next_seg s"
    using frame unfolding s' by auto
  show ?thesis
    unfolding frames_inv_def untouched_def
  proof (intro conjI allI impI)
    fix i assume z: "frames (segs s' i) = 0"
    with f pos have ne: "i \<noteq> p" by auto
    from z f assms(1) have u: "untouched i s" unfolding frames_inv_def by simp
    show "file_path (segs s' i) = None" using u f by (simp add: untouched_def)
    show "i \<notin> files s'" using u f by (auto simp: untouched_def)
    show "Some i \<notin> snd ` set (pending s')" using u f by (simp add: untouched_def)
    show "map_option snd (inflight s') \<noteq> Some i" using f by simp
    show "Transcribe i \<notin> set (trace s')" using tr[of "Transcribe i"] u ne
      by (auto simp: untouched_def)
    show "Recorded i \<notin> set (trace s')" using tr[of "Recorded i"] u ne
      by (auto simp: untouched_def)
  next
    fix i assume "next_seg s' \<le> i"
    with f assms(1) show "frames (segs s' i) = 0" unfolding frames_inv_def by simp
  qed
qed

lemma caller_step_fields:
  assumes "step c a s = Some s'"
    and "a \<in> {Resume, Pause, Stop, ShutdownDone, Cancel, CancelClear}"
  shows "segs s' = segs s \<and> files s' = files s \<and> pending s' = pending s
    \<and> inflight s' = inflight s \<and> trace s' = trace s \<and> next_seg s' = next_seg s"
  using assms by (auto simp: caller_defs clear_transcript_def split: if_splits)

lemma seg_read_inv:
  assumes "frames_inv s" and "i < next_seg s"
  shows "frames_inv (s\<lparr>segs := (segs s)(i := (segs s i)\<lparr>frames := Suc (frames (segs s i))\<rparr>)\<rparr>)"
  using assms unfolding frames_inv_def untouched_def by auto

lemma seg_fail_inv:
  assumes "frames_inv s"
  shows "frames_inv (s\<lparr>segs := (segs s)(i := (segs s i)\<lparr>ended := True\<rparr>)\<rparr>)"
  using assms unfolding frames_inv_def untouched_def by auto

lemma start_inv: "frames_inv s \<Longrightarrow> frames_inv (start s)"
proof (cases "running s")
  case True
  assume "frames_inv s"
  with True show ?thesis by (simp add: start_def)
next
  case False
  assume "frames_inv s"
  then show ?thesis
    by (rule frames_inv_cong) (simp_all add: start_def False)
qed

lemma step_frames_inv:
  assumes "frames_inv s" and "step c a s = Some s'"
  shows "frames_inv s'"
proof (cases a)
  case Start
  with assms(2) have "s' = start s" by (simp add: guard_def split: if_splits)
  with assms(1) show ?thesis by (simp add: start_inv)
next
  case Resume
  with caller_step_fields[OF assms(2)] show ?thesis
    by (intro frames_inv_cong[OF assms(1)]) auto
next
  case Pause
  with caller_step_fields[OF assms(2)] show ?thesis
    by (intro frames_inv_cong[OF assms(1)]) auto
next
  case Stop
  with caller_step_fields[OF assms(2)] show ?thesis
    by (intro frames_inv_cong[OF assms(1)]) auto
next
  case ShutdownFlush
  with assms show ?thesis by (auto simp: guard_def shutdown_flush_inv split: if_splits)
next
  case ShutdownDone
  with caller_step_fields[OF assms(2)] show ?thesis
    by (intro frames_inv_cong[OF assms(1)]) auto
next
  case Cancel
  with caller_step_fields[OF assms(2)] show ?thesis
    by (intro frames_inv_cong[OF assms(1)]) auto
next
  case CancelDiscard
  with assms show ?thesis by (auto simp: guard_def cancel_discard_inv split: if_splits)
next
  case CancelClear
  with caller_step_fields[OF assms(2)] show ?thesis
    by (intro frames_inv_cong[OF assms(1)]) auto
next
  case (Spawn now)
  with assms show ?thesis by (auto simp: guard_def spawn_inv split: if_splits)
next
  case SchedulerExit
  with assms(2) have s': "s' = (stop_active_segments s)\<lparr>scheduler := Some Finished\<rparr>"
    by (simp add: guard_def split: if_splits)
  show ?thesis
    unfolding s' by (rule frames_inv_cong[OF stop_active_segments_inv[OF assms(1)]]) auto
next
  case (SegRead i)
  with assms show ?thesis by (auto simp: guard_def seg_read_inv split: if_splits)
next
  case (SegFail i)
  with assms show ?thesis by (auto simp: guard_def seg_fail_inv split: if_splits)
next
  case (SegExit i)
  with assms show ?thesis by (auto simp: guard_def finish_segment_inv split: if_splits)
next
  case (Watch i)
  with assms show ?thesis by (auto simp: guard_def watch_segment_inv split: if_splits)
next
  case TranscriberGet
  with assms show ?thesis by (simp add: transcriber_get_inv)
next
  case TranscriberBody
  with assms show ?thesis by (simp add: transcriber_body_inv)
qed

lemma run_frames_inv: "frames_inv s \<Longrightarrow> run c sched s = Some s' \<Longrightarrow> frames_inv s'"
proof (induction sched arbitrary: s)
  case Nil
  then show ?case by simp
next
  case (Cons a sched)
  from Cons.prems(2) obtain s1 where
    1: "step c a s = Some s1" and 2: "run c sched s1 = Some s'"
    by (auto split: option.splits)
  from Cons.prems(1) 1 have "frames_inv s1" by (rule step_frames_inv)
  then show ?case using 2 by (rule Cons.IH)
qed

lemma init_frames_inv: "frames_inv (init old)"
  by (simp add: frames_inv_def untouched_def init_def)

text \<open>
  C7. In every state a schedule reaches from the fresh manager, a segment that has read
  no block has no artifact path and no file; no item for it is in the queue or with the
  transcriber; the client was never called on it and no entry was recorded for it.
  Stopping it then (\<open>stop_event.set(); join()\<close>) still leaves \<open>file_path\<close> at
  \<open>None\<close>, and neither the flush nor its watcher files an item.
\<close>

theorem zero_blocks_no_artifact:
  assumes "run c sched (init old) = Some s" and "frames (segs s i) = 0"
  shows "file_path (segs s i) = None \<and> i \<notin> files s \<and> Some i \<notin> snd ` set (pending s)
    \<and> map_option snd (inflight s) \<noteq> Some i
    \<and> Transcribe i \<notin> set (trace s) \<and> Recorded i \<notin> set (trace s)
    \<and> file_path (segs (force_stop i s) i) = None
    \<and> pending (file_segment i (force_stop i s)) = pending s
    \<and> pending (watch_segment i s) = pending s"
proof -
  from init_frames_inv assms(1) have "frames_inv s" by (rule run_frames_inv)
  with assms(2) have u: "untouched i s" by (simp add: frames_inv_def)
  then have none: "file_path (segs s i) = None" by (simp add: untouched_def)
  with assms(2) have 1: "file_path (segs (force_stop i s) i) = None"
    by (simp add: force_stop_def finish_segment_def Let_def)
  then have 2: "pending (file_segment i (force_stop i s)) = pending s"
    by (simp add: file_segment_def)
  from none have 3: "pending (watch_segment i s) = pending s"
    by (simp add: watch_segment_def file_segment_def)
  from u 1 2 3 show ?thesis by (simp add: untouched_def)
qed

lemma stopped_early_run:
  "case run flaky stopped_early (init None) of None \<Rightarrow> False
   | Some s \<Rightarrow> frames (segs s 0) = 0 \<and> frames (segs s 1) = 0 \<and> ended (segs s 0)
       \<and> ended (segs s 1) \<and> next_seg s = 2 \<and> caller s = Ready"
  by (simp add: flaky_def stopped_early_def model_defs)

theorem zero_blocks_no_artifact_witness:
  "map_option (\<lambda>s. (file_path (segs s 0), file_path (segs s 1), files s, pending s,
                    trace s, results s))
     (run flaky stopped_early (init None)) = Some (None, None, {}, [], [], [])"
proof -
  from stopped_early_run obtain s where
    r: "run flaky stopped_early (init None) = Some s" and
    z: "frames (segs s 0) = 0" "frames (segs s 1) = 0"
    by (auto split: option.splits)
  from zero_blocks_no_artifact[OF r z(1)] zero_blocks_no_artifact[OF r z(2)]
  have "file_path (segs s 0) = None" "file_path (segs s 1) = None" by simp_all
  moreover have "case run flaky stopped_early (init None) of None \<Rightarrow> False
     | Some s \<Rightarrow> files s = {} \<and> pending s = [] \<and> trace s = [] \<and> results s = []"
    by (simp add: flaky_def stopped_early_def model_defs)
  ultimately show ?thesis using r by simp
qed

subsection \<open>The threads and the queue\<close>

text \<open>The flush and the watcher only add artifacts, with finite keys.\<close>

lemma file_segment_adds:
  "\<exists>arts. pending (file_segment i s) = pending s @ arts
     \<and> (\<forall>x \<in> set arts. snd x \<noteq> None \<and> fst x \<noteq> \<infinity>)"
  by (auto simp: file_segment_def split: option.splits)

lemma flush_fold_adds:
  "\<exists>arts. pending (fold (\<lambda>i s. file_segment i (force_stop i s)) xs s) = pending s @ arts
     \<and> (\<forall>x \<in> set arts. snd x \<noteq> None \<and> fst x \<noteq> \<infinity>) \<and> (xs = [] \<longrightarrow> arts = [])"
proof (induction xs arbitrary: s)
  case Nil
  then show ?case by simp
next
  case (Cons i xs)
  let ?s1 = "file_segment i (force_stop i s)"
  from file_segment_adds[of i "force_stop i s"] obtain a1 where
    1: "pending ?s1 = pending s @ a1" "\<forall>x \<in> set a1. snd x \<noteq> None \<and> fst x \<noteq> \<infinity>"
    by auto
  from Cons[where s = ?s1] obtain a2 where
    2: "pending (fold (\<lambda>i s. file_segment i (force_stop i s)) xs ?s1) = pending ?s1 @ a2"
      "\<forall>x \<in> set a2. snd x \<noteq> None \<and> fst x \<noteq> \<infinity>"
    by auto
  from 1 2 have "pending (fold (\<lambda>i s. file_segment i (force_stop i s)) (i # xs) s)
      = pending s @ (a1 @ a2) \<and> (\<forall>x \<in> set (a1 @ a2). snd x \<noteq> None \<and> fst x \<noteq> \<infinity>)"
    by auto
  then show ?case by blast
qed

lemma stop_active_segments_adds:
  "\<exists>arts. pending (stop_active_segments s) = pending s @ arts
     \<and> (\<forall>x \<in> set arts. snd x \<noteq> None \<and> fst x \<noteq> \<infinity>) \<and> (active s = [] \<longrightarrow> arts = [])"
  unfolding stop_active_segments_def
  using flush_fold_adds[where xs = "active s" and s = "s\<lparr>active := []\<rparr>"] by simp

lemma watch_segment_adds:
  "\<exists>arts. pending (watch_segment i s) = pending s @ arts
     \<and> (\<forall>x \<in> set arts. snd x \<noteq> None \<and> fst x \<noteq> \<infinity>) \<and> (active s = [] \<longrightarrow> arts = [])"
  using file_segment_adds[of i "s\<lparr>active := remove1 i (active s)\<rparr>"]
  by (auto simp: watch_segment_def)

lemma watch_segment_active: "active s = [] \<Longrightarrow> active (watch_segment i s) = []"
  by (simp add: watch_segment_def)

text \<open>How the four predicates on the queue follow an addition of artifacts.\<close>

lemma adds_keyed:
  assumes "pending s' = pending s @ arts" and "\<forall>x \<in> set arts. snd x \<noteq> None \<and> fst x \<noteq> \<infinity>"
  shows "keyed s' = keyed s"
  using assms unfolding keyed_def by auto

lemma adds_no_sentinel:
  assumes "pending s' = pending s @ arts" and "\<forall>x \<in> set arts. snd x \<noteq> None \<and> fst x \<noteq> \<infinity>"
  shows "no_sentinel s' = no_sentinel s"
  using assms unfolding no_sentinel_def by auto

lemma adds_count:
  assumes "pending s' = pending s @ arts" and "\<forall>x \<in> set arts. snd x \<noteq> None \<and> fst x \<noteq> \<infinity>"
  shows "count_list (pending s') (\<infinity>, None) = count_list (pending s) (\<infinity>, None)"
proof -
  from assms(2) have "(\<infinity>, None) \<notin> set arts" by auto
  then have "count_list arts (\<infinity>, None) = 0" by (simp add: count_list_0_iff)
  with assms(1) show ?thesis by simp
qed

lemma no_sentinel_count: "no_sentinel s \<longleftrightarrow> count_list (pending s) (\<infinity>, None) = 0"
  by (simp add: no_sentinel_def count_list_0_iff)

lemmas queue_preds = keyed_def no_sentinel_def no_artifact_def joining_def

lemma coherent_keyed: "coherent s \<Longrightarrow> keyed s"
  by (simp add: coherent_def)

lemma coherent_running: "coherent s \<Longrightarrow> scheduler s = Some Alive \<Longrightarrow> transcriber s = Some Alive"
  by (simp add: coherent_def)

lemma coherent_alive: "coherent s \<Longrightarrow> transcriber s = Some Alive \<Longrightarrow> \<not> joining s \<Longrightarrow> no_sentinel s"
  by (simp add: coherent_def)

lemma coherent_not_finished: "coherent s \<Longrightarrow> \<not> joining s \<Longrightarrow> transcriber s \<noteq> Some Finished"
  by (auto simp: coherent_def)

lemma coherent_finished: "coherent s \<Longrightarrow> transcriber s = Some Finished \<Longrightarrow> no_sentinel s"
  by (simp add: coherent_def)

lemma coherent_joining: "coherent s \<Longrightarrow> joining s \<Longrightarrow> scheduler s \<noteq> Some Alive \<and> active s = []"
  by (simp add: coherent_def)

lemma coherent_one_sentinel:
  "coherent s \<Longrightarrow> transcriber s = Some Alive \<Longrightarrow> joining s \<Longrightarrow>
     count_list (pending s) (\<infinity>, None) \<le> 1"
  by (simp add: coherent_def)

lemma coherent_dead:
  "coherent s \<Longrightarrow> transcriber s \<noteq> Some Alive \<Longrightarrow>
     no_artifact s \<and> inflight s = None \<and> active s = []"
  by (simp add: coherent_def)

lemma coherent_paused:
  "coherent s \<Longrightarrow> caller s = Shutdown1 \<or> caller s = Shutdown2 \<Longrightarrow> paused s \<Longrightarrow>
     transcriber s \<noteq> None"
  by (simp add: coherent_def)

lemma coherent_start: "coherent s \<Longrightarrow> caller s = Ready \<Longrightarrow> coherent (start s)"
  by (auto simp: coherent_def start_def running_def queue_preds)

lemma coherent_resume: "coherent s \<Longrightarrow> caller s = Ready \<Longrightarrow> coherent (resume s)"
  by (cases "transcriber s"; cases "the (transcriber s)")
     (auto simp: coherent_def resume_def running_def queue_preds Let_def)

lemma coherent_pause: "coherent s \<Longrightarrow> caller s = Ready \<Longrightarrow> running s \<Longrightarrow> coherent (shutdown_signal True s)"
  by (auto simp: coherent_def shutdown_signal_def running_def queue_preds)

lemma coherent_stop: "coherent s \<Longrightarrow> caller s = Ready \<Longrightarrow> coherent (shutdown_signal False s)"
  by (auto simp: coherent_def shutdown_signal_def queue_preds)

lemma coherent_cancel: "coherent s \<Longrightarrow> caller s = Ready \<Longrightarrow> coherent (cancel_signal s)"
  by (auto simp: coherent_def cancel_signal_def queue_preds)

lemma coherent_shutdown_done:
  "coherent s \<Longrightarrow> caller s = Shutdown2 \<Longrightarrow> transcriber s \<noteq> Some Alive \<Longrightarrow> coherent (shutdown_done s)"
  by (cases "transcriber s"; cases "the (transcriber s)")
     (auto simp: coherent_def shutdown_done_def queue_preds)

lemma coherent_cancel_clear:
  "coherent s \<Longrightarrow> caller s = Cancel2 \<Longrightarrow> transcriber s \<noteq> Some Alive \<Longrightarrow> coherent (cancel_clear s)"
  by (auto simp: coherent_def cancel_clear_def clear_transcript_def queue_preds)


lemma coherent_spawn:
  "coherent s \<Longrightarrow> scheduler s = Some Alive \<Longrightarrow> coherent (spawn now s)"
  by (auto simp: coherent_def spawn_def queue_preds)

lemma coherent_segs: "coherent s \<Longrightarrow> coherent (s\<lparr>segs := f\<rparr>)"
  by (simp add: coherent_def queue_preds)

lemma coherent_finish_segment: "coherent s \<Longrightarrow> coherent (finish_segment i s)"
  by (simp add: coherent_def queue_preds finish_segment_def Let_def)

lemma coherent_watch_segment:
  assumes "coherent s"
  shows "coherent (watch_segment i s)"
proof -
  from watch_segment_adds[of i s] obtain arts where
    p: "pending (watch_segment i s) = pending s @ arts" and
    a: "\<forall>x \<in> set arts. snd x \<noteq> None \<and> fst x \<noteq> \<infinity>" and
    e: "active s = [] \<longrightarrow> arts = []"
    by blast
  note k = adds_keyed[OF p a] adds_no_sentinel[OF p a] adds_count[OF p a]
  have art: "no_artifact (watch_segment i s)" if "active s = []"
    "no_artifact s" using that e p by (simp add: no_artifact_def)
  have act: "active (watch_segment i s) = []" if "active s = []"
    using that by (rule watch_segment_active)
  have j: "joining (watch_segment i s) = joining s" by (simp add: joining_def)
  from assms show ?thesis
    unfolding coherent_def k j using art act by auto
qed

lemma coherent_scheduler_exit:
  assumes "coherent s" and "scheduler s = Some Alive"
  shows "coherent ((stop_active_segments s)\<lparr>scheduler := Some Finished\<rparr>)"
proof -
  let ?s' = "(stop_active_segments s)\<lparr>scheduler := Some Finished\<rparr>"
  from stop_active_segments_adds[of s] obtain arts where
    p: "pending ?s' = pending s @ arts" and
    a: "\<forall>x \<in> set arts. snd x \<noteq> None \<and> fst x \<noteq> \<infinity>"
    by auto
  note k = adds_keyed[OF p a] adds_no_sentinel[OF p a] adds_count[OF p a]
  have j: "joining ?s' = joining s" by (simp add: joining_def)
  from assms have alive: "transcriber s = Some Alive" by (simp add: coherent_def)
  from assms alive show ?thesis
    unfolding coherent_def k j by auto
qed

lemma coherent_shutdown_flush:
  assumes "coherent s" and "caller s = Shutdown1" and "scheduler s \<noteq> Some Alive"
  shows "coherent (shutdown_flush s)"
proof -
  let ?s' = "shutdown_flush s"
  from stop_active_segments_adds[of s] obtain arts where
    p: "pending ?s' = pending s @ arts @ [(\<infinity>, None)]" and
    a: "\<forall>x \<in> set arts. snd x \<noteq> None \<and> fst x \<noteq> \<infinity>" and
    e: "active s = [] \<longrightarrow> arts = []"
    by (auto simp: shutdown_flush_def Let_def)
  from a have na: "count_list arts (\<infinity>, None) = 0" by (auto simp: count_list_0_iff)
  from assms(2) have nj: "\<not> joining s" by (simp add: joining_def)
  have j: "joining ?s'" by (simp add: joining_def)
  have c: "caller ?s' = Shutdown2" by simp
  have 1: "keyed ?s'" using coherent_keyed[OF assms(1)] p a by (auto simp: keyed_def)
  have 2: "scheduler ?s' = Some Alive \<longrightarrow> transcriber ?s' = Some Alive"
    using assms(3) by simp
  have 3: "transcriber ?s' = Some Alive \<and> \<not> joining ?s' \<longrightarrow> no_sentinel ?s'"
    using j by simp
  have 4: "transcriber ?s' = Some Alive \<and> joining ?s'
      \<longrightarrow> count_list (pending ?s') (\<infinity>, None) \<le> 1"
    using coherent_alive[OF assms(1) _ nj] p na by (auto simp: no_sentinel_count)
  have 5: "joining ?s' \<longrightarrow> scheduler ?s' \<noteq> Some Alive \<and> active ?s' = []"
    using assms(3) by simp
  have "transcriber s \<noteq> Some Finished" using assms(1) nj by (rule coherent_not_finished)
  then have 6: "transcriber ?s' = Some Finished \<longrightarrow> joining ?s' \<and> no_sentinel ?s'"
    by simp
  have 7: "transcriber ?s' \<noteq> Some Alive
      \<longrightarrow> no_artifact ?s' \<and> inflight ?s' = None \<and> active ?s' = []"
    using coherent_dead[OF assms(1)] e p by (auto simp: no_artifact_def)
  have 8: "(caller ?s' = Shutdown1 \<or> caller ?s' = Shutdown2) \<and> paused ?s'
      \<longrightarrow> transcriber ?s' \<noteq> None"
    using coherent_paused[OF assms(1)] assms(2) by auto
  have 9: "caller ?s' = Ready \<and> paused ?s' \<longrightarrow> no_sentinel ?s'"
    using c by simp
  from 1 2 3 4 5 6 7 8 9 show ?thesis unfolding coherent_def by blast
qed

lemma coherent_cancel_discard:
  assumes "coherent s" and "caller s = Cancel1" and "scheduler s \<noteq> Some Alive"
  shows "coherent (cancel_discard s)"
proof -
  let ?s' = "cancel_discard s"
  from assms(2) have nj: "\<not> joining s" by (simp add: joining_def)
  have j: "joining ?s'" by (simp add: joining_def)
  have c: "caller ?s' = Cancel2" by simp
  have 1: "keyed ?s'" by (simp add: keyed_def)
  have 4: "count_list (pending ?s') (\<infinity>, None) \<le> 1" by simp
  have "transcriber s \<noteq> Some Finished" using assms(1) nj by (rule coherent_not_finished)
  then have 6: "transcriber ?s' = Some Finished \<longrightarrow> joining ?s' \<and> no_sentinel ?s'"
    by simp
  have 7: "transcriber ?s' \<noteq> Some Alive
      \<longrightarrow> no_artifact ?s' \<and> inflight ?s' = None \<and> active ?s' = []"
    using coherent_dead[OF assms(1)] by (auto simp: no_artifact_def)
  have 5: "joining ?s' \<longrightarrow> scheduler ?s' \<noteq> Some Alive \<and> active ?s' = []"
    using assms(3) by simp
  from 1 4 5 6 7 j c assms(3) show ?thesis unfolding coherent_def by simp
qed

lemma count_list_remove1:
  "count_list (remove1 y xs) x = (if x = y then count_list xs x - 1 else count_list xs x)"
  by (induction xs) auto

lemma coherentI:
  assumes "keyed s"
    and "scheduler s = Some Alive \<longrightarrow> transcriber s = Some Alive"
    and "transcriber s = Some Alive \<and> \<not> joining s \<longrightarrow> no_sentinel s"
    and "transcriber s = Some Alive \<and> joining s \<longrightarrow> count_list (pending s) (\<infinity>, None) \<le> 1"
    and "joining s \<longrightarrow> scheduler s \<noteq> Some Alive \<and> active s = []"
    and "transcriber s = Some Finished \<longrightarrow> joining s \<and> no_sentinel s"
    and "transcriber s \<noteq> Some Alive \<longrightarrow> no_artifact s \<and> inflight s = None \<and> active s = []"
    and "(caller s = Shutdown1 \<or> caller s = Shutdown2) \<and> paused s \<longrightarrow> transcriber s \<noteq> None"
    and "caller s = Ready \<and> paused s \<longrightarrow> no_sentinel s"
  shows "coherent s"
  using assms unfolding coherent_def by blast

lemma coherent_ready_paused: "coherent s \<Longrightarrow> caller s = Ready \<Longrightarrow> paused s \<Longrightarrow> no_sentinel s"
  by (simp add: coherent_def)

lemma coherent_transcriber_get:
  assumes inv: "coherent s" and get: "transcriber_get s = Some s'"
  shows "coherent s'"
proof -
  let ?x = "Min (set (pending s))"
  let ?q = "remove1 ?x (pending s)"
  from get have alive: "transcriber s = Some Alive" and idle: "inflight s = None"
    and ne: "pending s \<noteq> []"
    by (auto simp: transcriber_get_def split: if_splits)
  then have mem: "?x \<in> set (pending s)" by simp
  have sub: "set ?q \<subseteq> set (pending s)" by (rule set_remove1_subset)
  from coherent_keyed[OF inv] sub have k: "\<forall>y \<in> set ?q. (snd y = None) = (fst y = \<infinity>)"
    by (auto simp: keyed_def)
  show ?thesis
  proof (cases "snd ?x")
    case None
    with get alive idle ne have s': "s' = s\<lparr>pending := ?q, transcriber := Some Finished\<rparr>"
      by (simp add: transcriber_get_def Let_def)
    from None mem coherent_keyed[OF inv] have "fst ?x = \<infinity>" by (simp add: keyed_def)
    with None have x: "?x = (\<infinity>, None)" by (simp add: prod_eq_iff)
    with mem have "\<not> no_sentinel s" by (simp add: no_sentinel_def)
    with coherent_alive[OF inv alive] have j: "joining s" by blast
    from coherent_joining[OF inv j] have off: "scheduler s \<noteq> Some Alive" "active s = []" by auto
    have "count_list (remove1 (\<infinity>, None) (pending s)) (\<infinity>, None)
        = count_list (pending s) (\<infinity>, None) - 1"
      by (simp add: count_list_remove1)
    with coherent_one_sentinel[OF inv alive j] have "count_list ?q (\<infinity>, None) = 0"
      unfolding x by simp
    then have ns: "(\<infinity>, None) \<notin> set ?q" by (rule count_list_0_iff[THEN iffD1])
    have na: "snd y = None" if "y \<in> set ?q" for y
    proof (rule ccontr)
      assume "snd y \<noteq> None"
      with k that have "fst y \<noteq> \<infinity>" by auto
      then obtain n where n: "fst y = enat n" by auto
      from that sub have "?x \<le> y" by auto
      with x have "(\<infinity>, None) \<le> (fst y, snd y)" by simp
      with n show False by simp
    qed
    from j have nr: "caller s \<noteq> Ready" by (auto simp: joining_def)
    show ?thesis
      unfolding s'
      by (rule coherentI) (use k off j ns na idle nr in \<open>simp_all add: queue_preds\<close>)
  next
    case (Some p)
    with get alive idle ne have s': "s' = s\<lparr>pending := ?q, inflight := Some (fst ?x, p)\<rparr>"
      by (simp add: transcriber_get_def Let_def)
    have ns: "no_sentinel s \<Longrightarrow> (\<infinity>, None) \<notin> set ?q"
      using sub by (auto simp: no_sentinel_def)
    have cnt: "count_list ?q (\<infinity>, None) \<le> count_list (pending s) (\<infinity>, None)"
      by (simp add: count_list_remove1)
    show ?thesis
      unfolding s'
    proof (rule coherentI)
      show "keyed (s\<lparr>pending := ?q, inflight := Some (fst ?x, p)\<rparr>)"
        using k by (simp add: keyed_def)
      show "scheduler (s\<lparr>pending := ?q, inflight := Some (fst ?x, p)\<rparr>) = Some Alive \<longrightarrow>
          transcriber (s\<lparr>pending := ?q, inflight := Some (fst ?x, p)\<rparr>) = Some Alive"
        using alive by simp
      show "transcriber (s\<lparr>pending := ?q, inflight := Some (fst ?x, p)\<rparr>) = Some Alive
          \<and> \<not> joining (s\<lparr>pending := ?q, inflight := Some (fst ?x, p)\<rparr>)
          \<longrightarrow> no_sentinel (s\<lparr>pending := ?q, inflight := Some (fst ?x, p)\<rparr>)"
        using coherent_alive[OF inv alive] ns by (auto simp: joining_def no_sentinel_def)
      show "transcriber (s\<lparr>pending := ?q, inflight := Some (fst ?x, p)\<rparr>) = Some Alive
          \<and> joining (s\<lparr>pending := ?q, inflight := Some (fst ?x, p)\<rparr>)
          \<longrightarrow> count_list (pending (s\<lparr>pending := ?q, inflight := Some (fst ?x, p)\<rparr>))
                (\<infinity>, None) \<le> 1"
        using coherent_one_sentinel[OF inv alive] cnt by (auto simp: joining_def)
      show "joining (s\<lparr>pending := ?q, inflight := Some (fst ?x, p)\<rparr>)
          \<longrightarrow> scheduler (s\<lparr>pending := ?q, inflight := Some (fst ?x, p)\<rparr>) \<noteq> Some Alive
            \<and> active (s\<lparr>pending := ?q, inflight := Some (fst ?x, p)\<rparr>) = []"
        using coherent_joining[OF inv] by (simp add: joining_def)
      show "transcriber (s\<lparr>pending := ?q, inflight := Some (fst ?x, p)\<rparr>) = Some Finished
          \<longrightarrow> joining (s\<lparr>pending := ?q, inflight := Some (fst ?x, p)\<rparr>)
            \<and> no_sentinel (s\<lparr>pending := ?q, inflight := Some (fst ?x, p)\<rparr>)"
        using alive by simp
      show "transcriber (s\<lparr>pending := ?q, inflight := Some (fst ?x, p)\<rparr>) \<noteq> Some Alive
          \<longrightarrow> no_artifact (s\<lparr>pending := ?q, inflight := Some (fst ?x, p)\<rparr>)
            \<and> inflight (s\<lparr>pending := ?q, inflight := Some (fst ?x, p)\<rparr>) = None
            \<and> active (s\<lparr>pending := ?q, inflight := Some (fst ?x, p)\<rparr>) = []"
        using alive by simp
      show "(caller (s\<lparr>pending := ?q, inflight := Some (fst ?x, p)\<rparr>) = Shutdown1
            \<or> caller (s\<lparr>pending := ?q, inflight := Some (fst ?x, p)\<rparr>) = Shutdown2)
          \<and> paused (s\<lparr>pending := ?q, inflight := Some (fst ?x, p)\<rparr>)
          \<longrightarrow> transcriber (s\<lparr>pending := ?q, inflight := Some (fst ?x, p)\<rparr>) \<noteq> None"
        using alive by simp
      show "caller (s\<lparr>pending := ?q, inflight := Some (fst ?x, p)\<rparr>) = Ready
          \<and> paused (s\<lparr>pending := ?q, inflight := Some (fst ?x, p)\<rparr>)
          \<longrightarrow> no_sentinel (s\<lparr>pending := ?q, inflight := Some (fst ?x, p)\<rparr>)"
        using coherent_ready_paused[OF inv] ns by (auto simp: no_sentinel_def)
    qed
  qed
qed

lemma coherent_transcriber_body:
  assumes inv: "coherent s" and body: "transcriber_body c s = Some s'"
  shows "coherent s'"
proof -
  from body obtain ts p t s1 where
    cur: "inflight s = Some (ts, p)" and
    single: "transcribe_single c p s = (t, s1)" and
    s': "s' = (unlink p (record_result ts p t s1))\<lparr>inflight := None\<rparr>"
    by (auto simp: transcriber_body_def split: option.splits prod.splits)
  note frame = transcribe_single_frame[OF single]
  have f: "pending s' = pending s" "caller s' = caller s" "transcriber s' = transcriber s"
    "scheduler s' = scheduler s" "active s' = active s" "paused s' = paused s"
    "inflight s' = None"
    using frame by (simp_all add: s')
  have q: "keyed s' = keyed s" "no_sentinel s' = no_sentinel s" "no_artifact s' = no_artifact s"
    "joining s' = joining s"
    by (simp_all add: queue_preds f)
  from inv show ?thesis
    unfolding coherent_def q f by simp
qed

lemma step_coherent:
  assumes "coherent s" and "step c a s = Some s'"
  shows "coherent s'"
proof (cases a)
  case Start
  with assms show ?thesis by (auto simp: guard_def coherent_start split: if_splits)
next
  case Resume
  with assms show ?thesis by (auto simp: guard_def coherent_resume split: if_splits)
next
  case Pause
  with assms show ?thesis by (auto simp: guard_def coherent_pause split: if_splits)
next
  case Stop
  with assms show ?thesis by (auto simp: guard_def coherent_stop split: if_splits)
next
  case ShutdownFlush
  with assms show ?thesis by (auto simp: guard_def coherent_shutdown_flush split: if_splits)
next
  case ShutdownDone
  with assms show ?thesis by (auto simp: guard_def coherent_shutdown_done split: if_splits)
next
  case Cancel
  with assms show ?thesis by (auto simp: guard_def coherent_cancel split: if_splits)
next
  case CancelDiscard
  with assms show ?thesis by (auto simp: guard_def coherent_cancel_discard split: if_splits)
next
  case CancelClear
  with assms show ?thesis by (auto simp: guard_def coherent_cancel_clear split: if_splits)
next
  case (Spawn now)
  with assms show ?thesis by (auto simp: guard_def coherent_spawn split: if_splits)
next
  case SchedulerExit
  with assms show ?thesis by (auto simp: guard_def coherent_scheduler_exit split: if_splits)
next
  case (SegRead i)
  with assms show ?thesis by (auto simp: guard_def coherent_segs split: if_splits)
next
  case (SegFail i)
  with assms show ?thesis by (auto simp: guard_def coherent_segs split: if_splits)
next
  case (SegExit i)
  with assms show ?thesis by (auto simp: guard_def coherent_finish_segment split: if_splits)
next
  case (Watch i)
  with assms show ?thesis by (auto simp: guard_def coherent_watch_segment split: if_splits)
next
  case TranscriberGet
  with assms show ?thesis by (simp add: coherent_transcriber_get)
next
  case TranscriberBody
  with assms show ?thesis by (simp add: coherent_transcriber_body)
qed

lemma run_coherent: "coherent s \<Longrightarrow> run c sched s = Some s' \<Longrightarrow> coherent s'"
proof (induction sched arbitrary: s)
  case Nil
  then show ?case by simp
next
  case (Cons a sched)
  from Cons.prems(2) obtain s1 where
    1: "step c a s = Some s1" and 2: "run c sched s1 = Some s'"
    by (auto split: option.splits)
  from Cons.prems(1) 1 have "coherent s1" by (rule step_coherent)
  then show ?case using 2 by (rule Cons.IH)
qed

lemma coherent_init: "coherent (init old)"
  by (simp add: coherent_def init_def queue_preds)

subsection \<open>stop waits for the queue\<close>

lemma sentinels_ok_iff:
  "sentinels_ok s \<longleftrightarrow> (\<forall>k. (k, None) \<in> set (pending s) \<longrightarrow> k = \<infinity>)"
  unfolding sentinels_ok_def by force

lemma flush_fold_pending:
  "set (pending s) \<subseteq> set (pending (fold (\<lambda>i s. file_segment i (force_stop i s)) xs s))"
proof (induction xs arbitrary: s)
  case Nil
  then show ?case by simp
next
  case (Cons i xs)
  have "set (pending s) \<subseteq> set (pending (file_segment i (force_stop i s)))"
    by (auto simp: file_segment_def split: option.splits)
  with Cons[of "file_segment i (force_stop i s)"] show ?case by auto
qed

lemma stop_active_segments_pending:
  "set (pending s) \<subseteq> set (pending (stop_active_segments s))"
  unfolding stop_active_segments_def
  using flush_fold_pending[of "s\<lparr>active := []\<rparr>" "active s"] by simp

lemma flush_fold_sentinels:
  "sentinels_ok s \<Longrightarrow> sentinels_ok (fold (\<lambda>i s. file_segment i (force_stop i s)) xs s)"
proof (induction xs arbitrary: s)
  case Nil
  then show ?case by simp
next
  case (Cons i xs)
  from Cons.prems have "sentinels_ok (file_segment i (force_stop i s))"
    by (auto simp: sentinels_ok_iff file_segment_def split: option.splits)
  then show ?case using Cons.IH by simp
qed

lemma stop_active_segments_sentinels:
  "sentinels_ok s \<Longrightarrow> sentinels_ok (stop_active_segments s)"
  unfolding stop_active_segments_def
  by (rule flush_fold_sentinels) (simp add: sentinels_ok_iff)

lemma sentinels_ok_pending:
  "sentinels_ok s \<Longrightarrow> set (pending s') \<subseteq> insert (\<infinity>, None) (set (pending s)) \<Longrightarrow>
     sentinels_ok s'"
  unfolding sentinels_ok_iff by auto

lemma step_sentinels_ok:
  assumes "sentinels_ok s" and "step c a s = Some s'"
  shows "sentinels_ok s'"
proof (cases a)
  case Start
  with assms show ?thesis
    by (auto simp: sentinels_ok_iff caller_defs split: if_splits)
next
  case ShutdownFlush
  with assms(2) have "s' = shutdown_flush s" by (simp add: guard_def split: if_splits)
  with stop_active_segments_sentinels[OF assms(1)] show ?thesis
    by (auto simp: sentinels_ok_iff shutdown_flush_def Let_def)
next
  case CancelDiscard
  with assms(2) have "s' = cancel_discard s" by (simp add: guard_def split: if_splits)
  then show ?thesis by (simp add: sentinels_ok_iff)
next
  case SchedulerExit
  with assms(2) have "s' = (stop_active_segments s)\<lparr>scheduler := Some Finished\<rparr>"
    by (simp add: guard_def split: if_splits)
  with stop_active_segments_sentinels[OF assms(1)] show ?thesis
    by (simp add: sentinels_ok_iff)
next
  case (Watch i)
  with assms show ?thesis
    by (auto simp: sentinels_ok_iff guard_def watch_segment_def file_segment_def
        split: if_splits option.splits)
next
  case TranscriberGet
  with assms(2) have "pending s' = remove1 (Min (set (pending s))) (pending s)"
    by (auto simp: transcriber_get_def Let_def split: if_splits option.splits)
  then have "set (pending s') \<subseteq> set (pending s)"
    using set_remove1_subset[of "Min (set (pending s))" "pending s"] by simp
  then have "set (pending s') \<subseteq> insert (\<infinity>, None) (set (pending s))" by blast
  with assms(1) show ?thesis by (rule sentinels_ok_pending)
next
  case TranscriberBody
  with assms(2) obtain ts p t s1 where
    single: "transcribe_single c p s = (t, s1)" and
    s': "s' = (unlink p (record_result ts p t s1))\<lparr>inflight := None\<rparr>"
    by (auto simp: transcriber_body_def split: option.splits prod.splits)
  from transcribe_single_frame[OF single] have "pending s' = pending s" by (simp add: s')
  with assms(1) show ?thesis by (simp add: sentinels_ok_iff)
next
  case (Spawn now)
  with assms show ?thesis by (auto simp: sentinels_ok_iff guard_def split: if_splits)
next
  case (SegRead i)
  with assms show ?thesis by (auto simp: sentinels_ok_iff guard_def split: if_splits)
next
  case (SegFail i)
  with assms show ?thesis by (auto simp: sentinels_ok_iff guard_def split: if_splits)
next
  case (SegExit i)
  with assms show ?thesis by (auto simp: sentinels_ok_iff guard_def split: if_splits)
qed (use assms in \<open>auto simp: sentinels_ok_iff caller_defs clear_transcript_def split: if_splits\<close>)

lemma transcribe_loop_trace_mono:
  "transcribe_loop c p as s = (t, s') \<Longrightarrow> set (trace s) \<subseteq> set (trace s')"
proof (induction c p as s rule: transcribe_loop.induct)
  case (1 c p s)
  then show ?case by simp
next
  case (2 c p attempt rest s)
  show ?case
  proof (cases "llm c p (calls s)")
    case (Returned r)
    with "2.prems" show ?thesis by (auto simp: Let_def)
  next
    case RateLimited
    with "2.prems" "2.IH"(1) show ?thesis
      by (fastforce simp: Let_def split: if_splits)
  next
    case Failed
    with "2.prems" "2.IH"(2) show ?thesis
      by (fastforce simp: Let_def split: if_splits)
  qed
qed

lemma transcribe_loop_attempt:
  assumes "transcribe_loop c p (a # as) s = (t, s')"
  shows "Transcribe p \<in> set (trace s')"
proof (cases "llm c p (calls s)")
  case (Returned r)
  with assms show ?thesis by (auto simp: Let_def)
next
  case RateLimited
  with assms show ?thesis
    by (auto simp: Let_def split: if_splits dest!: transcribe_loop_trace_mono)
next
  case Failed
  with assms show ?thesis
    by (auto simp: Let_def split: if_splits dest!: transcribe_loop_trace_mono)
qed

lemma transcribe_single_attempt:
  assumes "0 \<le> max_retries c" and "transcribe_single c p s = (t, s')"
  shows "Transcribe p \<in> set (trace s')"
proof -
  from assms(1) have "[0 ..< nat (max_retries c + 1)] = 0 # [1 ..< nat (max_retries c + 1)]"
    by (simp add: upt_conv_Cons)
  with assms(2) have "transcribe_loop c p (0 # [1 ..< nat (max_retries c + 1)]) s = (t, s')"
    unfolding transcribe_single_def by simp
  then show ?thesis by (rule transcribe_loop_attempt)
qed

lemma step_trace_mono:
  assumes "step c a s = Some s'"
  shows "set (trace s) \<subseteq> set (trace s')"
proof (cases a)
  case TranscriberBody
  with assms obtain ts p t s1 where
    single: "transcribe_single c p s = (t, s1)" and
    s': "s' = (unlink p (record_result ts p t s1))\<lparr>inflight := None\<rparr>"
    by (auto simp: transcriber_body_def split: option.splits prod.splits)
  from transcribe_loop_trace_mono[OF single[unfolded transcribe_single_def]]
  show ?thesis by (auto simp: s' record_result_def)
next
  case TranscriberGet
  with assms show ?thesis
    by (auto simp: transcriber_get_def Let_def split: if_splits option.splits)
next
  case CancelDiscard
  have 1: "set (trace s) \<subseteq> set (trace (fold discard_segment xs s))" for xs s
  proof (induction xs arbitrary: s)
    case Nil
    then show ?case by simp
  next
    case (Cons i xs)
    have "set (trace s) \<subseteq> set (trace (discard_segment i s))"
      by (auto simp: discard_segment_def Let_def split: option.splits)
    with Cons[of "discard_segment i s"] show ?case by auto
  qed
  have 2: "set (trace s) \<subseteq> set (trace (fold discard_item xs s))" for xs s
  proof (induction xs arbitrary: s)
    case Nil
    then show ?case by simp
  next
    case (Cons x xs)
    have "set (trace s) \<subseteq> set (trace (discard_item x s))"
      by (auto simp: discard_item_def split: option.splits)
    with Cons[of "discard_item x s"] show ?case by auto
  qed
  let ?s1 = "fold discard_segment (active s) (s\<lparr>active := []\<rparr>)"
  from CancelDiscard assms have "s' = cancel_discard s"
    by (simp add: guard_def split: if_splits)
  then have "trace s' = trace (fold discard_item (sort (pending ?s1)) (?s1\<lparr>pending := []\<rparr>))"
    by (simp add: cancel_discard_def Let_def)
  moreover have "set (trace s) \<subseteq> set (trace ?s1)"
    using 1[of "s\<lparr>active := []\<rparr>" "active s"] by simp
  moreover have "set (trace ?s1) \<subseteq>
      set (trace (fold discard_item (sort (pending ?s1)) (?s1\<lparr>pending := []\<rparr>)))"
    using 2[of "?s1\<lparr>pending := []\<rparr>"] by simp
  ultimately show ?thesis by auto
qed (use assms in \<open>auto simp: caller_defs clear_transcript_def split: if_splits\<close>)

lemma run_trace_mono: "run c sched s = Some s' \<Longrightarrow> set (trace s) \<subseteq> set (trace s')"
proof (induction sched arbitrary: s)
  case Nil
  then show ?case by simp
next
  case (Cons a sched)
  then obtain s1 where "step c a s = Some s1" and "run c sched s1 = Some s'"
    by (auto split: option.splits)
  with Cons.IH step_trace_mono show ?case by blast
qed

text \<open>An artifact in the queue comes out before any sentinel.\<close>

lemma artifact_before_sentinel:
  assumes "sentinels_ok s" and "(enat t, Some p) \<in> set (pending s)"
  shows "snd (Min (set (pending s))) \<noteq> None"
proof
  let ?x = "Min (set (pending s))"
  assume none: "snd ?x = None"
  from assms(2) have "?x \<in> set (pending s)" by (intro Min_in) auto
  with assms(1) none have "fst ?x = \<infinity>" by (simp add: sentinels_ok_def)
  with none have "?x = (\<infinity>, None)" by (simp add: prod_eq_iff)
  moreover from assms(2) have "?x \<le> (enat t, Some p)" by simp
  ultimately show False by simp
qed

lemma watch_segment_pending: "set (pending s) \<subseteq> set (pending (watch_segment i s))"
  by (auto simp: watch_segment_def file_segment_def split: option.splits)

lemma shutdown_flush_pending: "set (pending s) \<subseteq> set (pending (shutdown_flush s))"
  using stop_active_segments_pending[of s] by (auto simp: shutdown_flush_def Let_def)

lemma step_served:
  assumes ok: "sentinels_ok s" and sv: "served t p s" and mr: "0 \<le> max_retries c"
    and st: "step c a s = Some s'"
  shows "served t p s'"
proof (cases "Transcribe p \<in> set (trace s)")
  case True
  with step_trace_mono[OF st] show ?thesis by (auto simp: served_def)
next
  case False
  with sv have pos: "caller s = Shutdown1 \<or> caller s = Shutdown2"
    and alive: "transcriber s = Some Alive"
    and item: "(enat t, Some p) \<in> set (pending s) \<or> inflight s = Some (enat t, p)"
    by (auto simp: served_def)
  have keep: "served t p s'"
    if "caller s' = Shutdown1 \<or> caller s' = Shutdown2" "transcriber s' = transcriber s"
      "set (pending s) \<subseteq> set (pending s')" "inflight s' = inflight s"
    using that alive item by (auto simp: served_def)
  show ?thesis
  proof (cases a)
    case Start
    with st pos show ?thesis by (auto simp: guard_def)
  next
    case Resume
    with st pos show ?thesis by (auto simp: guard_def)
  next
    case Pause
    with st pos show ?thesis by (auto simp: guard_def)
  next
    case Stop
    with st pos show ?thesis by (auto simp: guard_def)
  next
    case Cancel
    with st pos show ?thesis by (auto simp: guard_def)
  next
    case CancelDiscard
    with st pos show ?thesis by (auto simp: guard_def)
  next
    case CancelClear
    with st pos show ?thesis by (auto simp: guard_def)
  next
    case ShutdownDone
    with st alive show ?thesis by (auto simp: guard_def)
  next
    case ShutdownFlush
    with st have s': "s' = shutdown_flush s" by (simp add: guard_def split: if_splits)
    show ?thesis by (rule keep) (simp_all add: s' shutdown_flush_pending)
  next
    case (Spawn now)
    with st have s': "s' = spawn now s" by (simp add: guard_def split: if_splits)
    show ?thesis by (rule keep) (simp_all add: s' pos)
  next
    case SchedulerExit
    with st have s': "s' = (stop_active_segments s)\<lparr>scheduler := Some Finished\<rparr>"
      by (simp add: guard_def split: if_splits)
    show ?thesis by (rule keep) (simp_all add: s' pos stop_active_segments_pending)
  next
    case (SegRead i)
    with st have s': "s' = s\<lparr>segs := (segs s)(i := (segs s i)\<lparr>frames := Suc (frames (segs s i))\<rparr>)\<rparr>"
      by (simp add: guard_def split: if_splits)
    show ?thesis by (rule keep) (simp_all add: s' pos)
  next
    case (SegFail i)
    with st have s': "s' = s\<lparr>segs := (segs s)(i := (segs s i)\<lparr>ended := True\<rparr>)\<rparr>"
      by (simp add: guard_def split: if_splits)
    show ?thesis by (rule keep) (simp_all add: s' pos)
  next
    case (SegExit i)
    with st have s': "s' = finish_segment i s" by (simp add: guard_def split: if_splits)
    show ?thesis by (rule keep) (simp_all add: s' pos)
  next
    case (Watch i)
    with st have s': "s' = watch_segment i s" by (simp add: guard_def split: if_splits)
    show ?thesis by (rule keep) (simp_all add: s' pos watch_segment_pending)
  next
    case TranscriberGet
    let ?x = "Min (set (pending s))"
    from TranscriberGet st have idle: "inflight s = None" and ne: "pending s \<noteq> []"
      by (auto simp: transcriber_get_def split: if_splits)
    with item have mem: "(enat t, Some p) \<in> set (pending s)" by simp
    from artifact_before_sentinel[OF ok mem] obtain q where q: "snd ?x = Some q" by auto
    with TranscriberGet st alive idle ne
    have s': "s' = s\<lparr>pending := remove1 ?x (pending s), inflight := Some (fst ?x, q)\<rparr>"
      by (simp add: transcriber_get_def Let_def)
    show ?thesis
    proof (cases "?x = (enat t, Some p)")
      case True
      with q have "inflight s' = Some (enat t, p)" by (simp add: s')
      with pos alive show ?thesis by (simp add: served_def s')
    next
      case False
      with mem have "(enat t, Some p) \<in> set (pending s')" by (simp add: s')
      with pos alive show ?thesis by (simp add: served_def s')
    qed
  next
    case TranscriberBody
    with st obtain ts q tx s1 where
      cur: "inflight s = Some (ts, q)" and
      single: "transcribe_single c q s = (tx, s1)" and
      s': "s' = (unlink q (record_result ts q tx s1))\<lparr>inflight := None\<rparr>"
      by (auto simp: transcriber_body_def split: option.splits prod.splits)
    note frame = transcribe_single_frame[OF single]
    show ?thesis
    proof (cases "inflight s = Some (enat t, p)")
      case True
      with cur have "q = p" by simp
      with transcribe_single_attempt[OF mr single] have "Transcribe p \<in> set (trace s1)"
        by simp
      then have "Transcribe p \<in> set (trace s')"
        by (auto simp: s' record_result_def)
      then show ?thesis by (simp add: served_def)
    next
      case False
      with item have "(enat t, Some p) \<in> set (pending s)" by simp
      with frame pos alive show ?thesis by (simp add: served_def s')
    qed
  qed
qed

lemma run_served:
  assumes "sentinels_ok s" and "served t p s" and "0 \<le> max_retries c"
    and "run c sched s = Some s'"
  shows "served t p s'"
  using assms
proof (induction sched arbitrary: s)
  case Nil
  then show ?case by simp
next
  case (Cons a sched)
  from Cons.prems(4) obtain s1 where
    1: "step c a s = Some s1" and 2: "run c sched s1 = Some s'"
    by (auto split: option.splits)
  from step_sentinels_ok[OF Cons.prems(1) 1] step_served[OF Cons.prems(1,2,3) 1]
  show ?case using Cons.IH[OF _ _ Cons.prems(3) 2] by blast
qed

lemma stop_serves_queue:
  assumes "caller s = Ready" and "transcriber s = Some Alive" and "sentinels_ok s"
    and "0 \<le> max_retries c"
    and "(enat t, Some p) \<in> set (pending s)"
    and "run c (Stop # sched) s = Some s'" and "caller s' = Ready"
  shows "Transcribe p \<in> set (trace s')"
proof -
  let ?s1 = "shutdown_signal False s"
  from assms(1,6) have rest: "run c sched ?s1 = Some s'"
    by (simp add: guard_def)
  have "sentinels_ok ?s1" using assms(3) by (simp add: sentinels_ok_def shutdown_signal_def)
  moreover have "served t p ?s1"
    using assms(2,5) by (simp add: served_def shutdown_signal_def)
  ultimately have "served t p s'" using assms(4) rest by (rule run_served)
  with assms(7) show ?thesis by (simp add: served_def)
qed

text \<open>
  C4. In any state a schedule reaches from the fresh manager, let \<open>stop\<close> be called
  with the artifact \<open>p\<close> in the queue. However the threads are scheduled afterwards,
  once \<open>stop\<close> has returned (its join of the transcriber has ended, timeouts apart)
  the client has been called on \<open>p\<close>: the sentinel has key \<open>\<infinity>\<close>, so the transcriber
  takes every artifact before it, and the transcriber is alive whenever the queue holds
  an artifact. (\<open>max_retries\<close> is not negative: otherwise \<open>_transcribe_single\<close>
  calls nothing.)
\<close>

theorem stop_waits_for_queue:
  assumes "run c before (init old) = Some s" and "caller s = Ready"
    and "0 \<le> max_retries c"
    and "(k, Some p) \<in> set (pending s)"
    and "run c (Stop # sched) s = Some s'" and "caller s' = Ready"
  shows "Transcribe p \<in> set (trace s')"
proof -
  from coherent_init assms(1) have inv: "coherent s" by (rule run_coherent)
  from coherent_keyed[OF inv] assms(4) have "k \<noteq> \<infinity>" by (force simp: keyed_def)
  then obtain t where k: "k = enat t" by auto
  from assms(4) have "\<not> no_artifact s" by (force simp: no_artifact_def)
  with coherent_dead[OF inv] have alive: "transcriber s = Some Alive" by blast
  from coherent_keyed[OF inv] have ok: "sentinels_ok s"
    by (simp add: keyed_def sentinels_ok_def)
  from assms(4) have "(enat t, Some p) \<in> set (pending s)" by (simp add: k)
  from stop_serves_queue[OF assms(2) alive ok assms(3) this assms(5,6)]
  show ?thesis .
qed

lemma queued_run:
  "case run two_texts queued (init None) of None \<Rightarrow> False
   | Some s \<Rightarrow> pending s = [(enat 0, Some 0)] \<and> caller s = Ready
       \<and> transcriber s = Some Alive \<and> active s = [1] \<and> trace s = []"
  by (simp add: two_texts_def queued_def model_defs)

lemma stop_call_run:
  "case run two_texts (queued @ stop_call) (init None) of None \<Rightarrow> False
   | Some s \<Rightarrow> caller s = Ready \<and> pending s = [] \<and> files s = {}"
  by (auto simp: two_texts_def queued_def stop_call_def model_defs)

theorem stop_waits_for_queue_witness:
  "(case run two_texts queued (init None) of None \<Rightarrow> False
    | Some s \<Rightarrow>
       (case run two_texts stop_call s of None \<Rightarrow> False
        | Some s' \<Rightarrow> pending s = [(enat 0, Some 0)] \<and> caller s = Ready \<and> caller s' = Ready
            \<and> Transcribe 0 \<in> set (trace s')))"
proof -
  from queued_run obtain s where
    r: "run two_texts queued (init None) = Some s" and
    q: "pending s = [(enat 0, Some 0)]" and c: "caller s = Ready"
    by (auto split: option.splits)
  from stop_call_run r obtain s' where
    r': "run two_texts stop_call s = Some s'" and c': "caller s' = Ready"
    by (auto simp: run_append split: option.splits)
  have mr: "0 \<le> max_retries two_texts" by (simp add: two_texts_def)
  have mem: "(enat 0, Some 0) \<in> set (pending s)" by (simp add: q)
  from r' have "run two_texts (Stop # tl stop_call) s = Some s'" by (simp add: stop_call_def)
  from stop_waits_for_queue[OF r c mr mem this c']
  have "Transcribe 0 \<in> set (trace s')" .
  with r r' q c c' show ?thesis by simp
qed

subsection \<open>pause and resume clear nothing\<close>

lemma step_results_grow:
  assumes "step c a s = Some s'" and "a \<noteq> Start" and "a \<noteq> CancelClear"
  shows "take (length (results s)) (results s') = results s
    \<and> (transcript s \<noteq> None \<longrightarrow> transcript s' \<noteq> None)"
proof (cases "a = TranscriberBody")
  case True
  with assms(1) obtain ts p t s1 where
    single: "transcribe_single c p s = (t, s1)" and
    s': "s' = (unlink p (record_result ts p t s1))\<lparr>inflight := None\<rparr>"
    by (auto simp: transcriber_body_def split: option.splits prod.splits)
  from transcribe_single_frame[OF single] show ?thesis
    by (simp add: s' record_result_def write_transcript_def Let_def)
next
  case False
  from step_keeps_results[OF assms False] show ?thesis by simp
qed

lemma run_results_grow:
  assumes "run c sched s = Some s'" and "Start \<notin> set sched" and "CancelClear \<notin> set sched"
  shows "take (length (results s)) (results s') = results s
    \<and> (transcript s \<noteq> None \<longrightarrow> transcript s' \<noteq> None)"
  using assms
proof (induction sched arbitrary: s)
  case Nil
  then show ?case by simp
next
  case (Cons a sched)
  from Cons.prems(1) obtain s1 where
    1: "step c a s = Some s1" and 2: "run c sched s1 = Some s'"
    by (auto split: option.splits)
  from Cons.prems(2,3) have "a \<noteq> Start" "a \<noteq> CancelClear" by auto
  from step_results_grow[OF 1 this]
  have g1: "take (length (results s)) (results s1) = results s"
    and t1: "transcript s \<noteq> None \<longrightarrow> transcript s1 \<noteq> None" by auto
  from Cons.IH[OF 2] Cons.prems(2,3)
  have g2: "take (length (results s1)) (results s') = results s1"
    and t2: "transcript s1 \<noteq> None \<longrightarrow> transcript s' \<noteq> None" by auto
  from arg_cong[OF g1, of length] have "length (results s) \<le> length (results s1)"
    by simp
  then have "take (length (results s)) (results s')
      = take (length (results s)) (take (length (results s1)) (results s'))"
    by (simp add: min_def)
  with g1 g2 t1 t2 show ?case by simp
qed

text \<open>
  C5, as the code has it. In a run without \<open>start\<close> and without the end of
  \<open>cancel\<close>, so in any run of \<open>pause\<close> followed by \<open>resume\<close>, the result set only
  grows at its end: the entries recorded before are still there, in place; a transcript
  that exists still exists, and it is the sorted join of the result set if it was before.
  The caller's own steps of \<open>pause\<close> and \<open>resume\<close> leave the result set and the
  transcript untouched; \<open>resume\<close> also leaves the queue and the artifacts, and from a
  paused state it brings the scheduler and the transcriber back. An entry recorded later
  is appended.
\<close>

theorem pause_resume_keeps_results:
  assumes "run c sched s = Some s'" and "Start \<notin> set sched" and "CancelClear \<notin> set sched"
  shows "take (length (results s)) (results s') = results s
    \<and> (transcript s \<noteq> None \<longrightarrow> transcript s' \<noteq> None)
    \<and> (transcript_ok s \<longrightarrow> read_transcript s' = join_sp (map snd (sort_key fst (results s'))))
    \<and> results (shutdown_signal True s) = results s
    \<and> transcript (shutdown_signal True s) = transcript s
    \<and> results (shutdown_flush s) = results s \<and> transcript (shutdown_flush s) = transcript s
    \<and> results (shutdown_done s) = results s \<and> transcript (shutdown_done s) = transcript s
    \<and> results (resume s) = results s \<and> transcript (resume s) = transcript s
    \<and> pending (resume s) = pending s \<and> files (resume s) = files s
    \<and> (paused s \<and> \<not> running s \<longrightarrow>
          running (resume s) \<and> transcriber (resume s) = Some Alive \<and> \<not> paused (resume s))
    \<and> (text \<noteq> [] \<longrightarrow>
          results (record_result ts p text s) = results s @ [(ts, strip text)])"
proof -
  note grow = run_results_grow[OF assms]
  have ok: "transcript_ok s \<longrightarrow>
      read_transcript s' = join_sp (map snd (sort_key fst (results s')))"
    using run_transcript_ok[OF _ assms(1)] by (simp add: transcript_ok_def)
  have sig: "results (shutdown_signal True s) = results s
      \<and> transcript (shutdown_signal True s) = transcript s"
    by (simp add: shutdown_signal_def)
  have fl: "results (shutdown_flush s) = results s \<and> transcript (shutdown_flush s) = transcript s"
    by simp
  have dn: "results (shutdown_done s) = results s \<and> transcript (shutdown_done s) = transcript s"
    by (simp add: shutdown_done_def)
  have rs: "results (resume s) = results s \<and> transcript (resume s) = transcript s
      \<and> pending (resume s) = pending s \<and> files (resume s) = files s"
    by (simp add: resume_def Let_def)
  have up: "paused s \<and> \<not> running s \<longrightarrow>
      running (resume s) \<and> transcriber (resume s) = Some Alive \<and> \<not> paused (resume s)"
    by (cases "transcriber s"; cases "the (transcriber s)")
      (auto simp: resume_def running_def Let_def)
  have ap: "text \<noteq> [] \<longrightarrow>
      results (record_result ts p text s) = results s @ [(ts, strip text)]"
    by (simp add: record_result_def)
  from grow ok sig fl dn rs up ap show ?thesis by blast
qed

lemma recording_run:
  "case run two_texts recording (init None) of None \<Rightarrow> False
   | Some s \<Rightarrow> results s = [(enat 0, (text_of ''hello''))] \<and> transcript s = Some (text_of ''hello'')
       \<and> running s \<and> caller s = Ready"
  by (simp add: two_texts_def recording_def model_defs)

lemma pause_resume_run:
  "case run two_texts (recording @ pause_resume) (init None) of None \<Rightarrow> False
   | Some s \<Rightarrow> results s = [(enat 0, (text_of ''hello'')), (enat 12, (text_of ''world''))]
       \<and> transcript s = Some (text_of ''hello world'') \<and> running s \<and> caller s = Ready"
  by (simp add: two_texts_def recording_def pause_resume_def model_defs)

theorem pause_resume_keeps_results_witness:
  "(case run two_texts recording (init None) of None \<Rightarrow> False
    | Some s \<Rightarrow>
       (case run two_texts pause_resume s of None \<Rightarrow> False
        | Some s' \<Rightarrow> results s = [(enat 0, (text_of ''hello''))]
            \<and> take (length (results s)) (results s') = results s
            \<and> transcript s' \<noteq> None))"
proof -
  from recording_run obtain s where
    r: "run two_texts recording (init None) = Some s" and
    rs: "results s = [(enat 0, (text_of ''hello''))]" and tr: "transcript s = Some (text_of ''hello'')"
    by (auto split: option.splits)
  from pause_resume_run r obtain s' where r': "run two_texts pause_resume s = Some s'"
    by (auto simp: run_append split: option.splits)
  have "Start \<notin> set pause_resume" "CancelClear \<notin> set pause_resume"
    by (simp_all add: pause_resume_def)
  from pause_resume_keeps_results[OF r' this]
  have "take (length (results s)) (results s') = results s"
    and "transcript s \<noteq> None \<longrightarrow> transcript s' \<noteq> None"
    by blast+
  with r r' rs tr show ?thesis by simp
qed

text \<open>
  C5 as stated has the result set and the transcript unchanged over \<open>pause\<close> and
  \<open>resume\<close>. But \<open>pause\<close> files the audio of the active segment and joins the
  transcriber, which transcribes it: the transcript is \<open>hello\<close> before the pair and
  \<open>hello world\<close> after.
\<close>

theorem pause_changes_transcript:
  "map_option (\<lambda>s. (results s, read_transcript s, running s))
     (run two_texts recording (init None))
   = Some ([(enat 0, (text_of ''hello''))], (text_of ''hello''), True)
   \<and> map_option (\<lambda>s. (results s, read_transcript s, running s))
       (run two_texts (recording @ pause_resume) (init None))
     = Some ([(enat 0, (text_of ''hello'')), (enat 12, (text_of ''world''))], (text_of ''hello world''), True)"
  using recording_run pause_resume_run
  by (auto simp: read_transcript_def split: option.splits)

subsection \<open>cancel and the transcriber\<close>

text \<open>
  C2 on the code. \<open>cancel\<close> is called during a recording with one active segment that
  has read a block; the queue is empty and the transcriber idle. \<open>cancel\<close> sets
  \<open>_stop_all\<close> and joins the scheduler, whose way out is \<open>_stop_active_segments\<close>:
  it files the segment's artifact. The transcriber takes it. \<open>cancel\<close> then finds no
  active segment and an empty queue, puts the sentinel and joins the transcriber, which
  calls the client on the artifact, records the text and deletes the file. In the end the
  transcript and the result set are empty and no file is left, but the active segment's
  audio was transcribed.
\<close>

theorem cancel_transcribes_active_segment:
  "map_option (\<lambda>s. (active s, frames (segs s 0), pending s, inflight s, caller s, trace s))
     (run two_texts one_active (init None)) = Some ([0], 1, [], None, Ready, [])
   \<and> map_option (\<lambda>s. (caller s, trace s, read_transcript s, results s, files s))
       (run two_texts (one_active @ cancel_call) (init None))
     = Some (Ready, [Transcribe 0, Recorded 0, Unlink 0], [], [], {})"
  by (simp add: two_texts_def one_active_def cancel_call_def model_defs)

text \<open>
  C8 on the code. With two active segments, the scheduler files both artifacts on its
  way out, the transcriber takes the first and \<open>cancel\<close> deletes the second from the
  queue. Each artifact is deleted once, but the first one only after the transcriber's
  four calls of the client on it. With a client that answers at once, so that no sleep
  sets the run against the timeout of a join, it is one call.
\<close>

theorem cancel_leaves_one_to_the_worker:
  "map_option (\<lambda>s. (active s, pending s, inflight s, caller s, trace s))
     (run flaky two_active (init None)) = Some ([0, 1], [], None, Ready, [])
   \<and> map_option (\<lambda>s. (caller s, filter (\<lambda>e. e \<noteq> Sleep 5 \<and> e \<noteq> Sleep 1) (trace s), files s))
       (run flaky (two_active @ cancel_call) (init None))
     = Some (Ready, [Unlink 1, Transcribe 0, Transcribe 0, Transcribe 0, Transcribe 0,
                     Recorded 0, Unlink 0], {})
   \<and> map_option (\<lambda>s. (caller s, trace s, files s))
       (run two_texts (two_active @ cancel_call) (init None))
     = Some (Ready, [Unlink 1, Transcribe 0, Recorded 0, Unlink 0], {})"
  by (simp add: flaky_def two_texts_def two_active_def cancel_call_def model_defs)


end
